theory Spec2Isabelle
  imports Main
begin

section \<open>The connection pool of server.go\<close>

text \<open>
  The model is sequential: one goroutine runs one operation of \<^verbatim>\<open>Server\<close> at a time,
  and no other goroutine touches the pool in between. A channel operation that would
  have to wait for another goroutine is the outcome \<open>Blocked\<close>; a run-time panic is the
  outcome \<open>Panic\<close>. Every outcome carries the state the server is left in.

  \<^verbatim>\<open>poolSize\<close> and \<^verbatim>\<open>count\<close> are \<^verbatim>\<open>int64\<close> in the source. They are
  modelled as \<open>int\<close>: \<^verbatim>\<open>count\<close> is only ever incremented while it is below
  \<^verbatim>\<open>poolSize\<close>, and the loop indices stay below \<^verbatim>\<open>poolSize\<close> or \<^verbatim>\<open>count\<close>, so no
  addition or subtraction of the source wraps around.
\<close>

subsection \<open>Data\<close>

text \<open>A transport (\<^verbatim>\<open>net.Conn\<close>) is opaque to the pool; it is named by a number.\<close>

type_synonym sock = nat

text \<open>An opaque detection result (\<^verbatim>\<open>*detection.Result\<close>).\<close>

type_synonym result = nat

text \<open>
  Errors are opaque values. \<^verbatim>\<open>misc.ErrorWrap(err, msg)\<close> is kept as a constructor.
\<close>

datatype error = Err nat | ErrorWrap error string

text \<open>
  \<^verbatim>\<open>*conn\<close>: the pooled connection. \<open>cid\<close> stands for the address of the object.
\<close>

record conn =
  cid :: nat
  socket :: sock
  failing :: bool

text \<open>
  \<^verbatim>\<open>type Server struct\<close>. The socket factory is a function of the source with effects of
  its own; here it is the table of what its k-th invocation returns, together with
  the number of invocations made so far. In the same way \<open>ping\<close> is the table of the
  heartbeat probes' outcomes (\<open>True\<close>: the probe succeeded) and \<open>exchange\<close> the table of
  the detection exchanges' outcomes (a pair of results, of which the one-way exchanges
  return the first). \<open>poolCh\<close> is the buffer of the channel, oldest
  element first; its capacity is \<open>poolSize\<close>. \<open>closeCh\<close> is \<open>True\<close> once the channel has
  been closed. \<open>healthCheck_closed\<close> is \<open>True\<close> once \<^verbatim>\<open>s.healthCheck.Close()\<close> has run.
  \<open>hook_log\<close> lists the errors passed to \<^verbatim>\<open>SocketErrorHook\<close>, \<open>closed_socks\<close>
  the transports that were closed, \<open>ping_log\<close> the connections that were probed.
  \<open>conns_made\<close> is a history variable: the number of \<^verbatim>\<open>conn\<close> objects made so far.
\<close>

record server =
  socketFactory :: "nat \<Rightarrow> error + sock"
  factory_calls :: nat
  SocketErrorHook :: bool
  hook_log :: "error list"
  poolCh :: "conn list"
  poolSize :: int
  count :: int
  closeCh :: bool
  healthCheck_closed :: bool
  closed_socks :: "sock list"
  ping :: "nat \<Rightarrow> bool"
  pings :: nat
  ping_log :: "nat list"
  exchange :: "nat \<Rightarrow> error + result \<times> result"
  exchanges :: nat
  conns_made :: nat

datatype 'a outcome = Return 'a server | Blocked server | Panic server

fun state_of :: "'a outcome \<Rightarrow> server" where
  "state_of (Return v s) = s"
| "state_of (Blocked s) = s"
| "state_of (Panic s) = s"

subsection \<open>The channel\<close>

text \<open>
  \<^verbatim>\<open>s.poolCh <- c\<close> on a channel made with capacity \<open>poolSize\<close>: the send goes through
  when the buffer has room and waits otherwise (\<open>None\<close>).
\<close>

definition chan_send :: "conn \<Rightarrow> server \<Rightarrow> server option" where
  "chan_send c s =
     (if int (length (poolCh s)) < poolSize s
      then Some (s\<lparr>poolCh := poolCh s @ [c]\<rparr>)
      else None)"

text \<open>\<^verbatim>\<open><-s.poolCh\<close>: the oldest element, or \<open>None\<close> when the buffer is empty.\<close>

definition chan_recv :: "server \<Rightarrow> (conn \<times> server) option" where
  "chan_recv s =
     (case poolCh s of
        [] \<Rightarrow> None
      | c # cs \<Rightarrow> Some (c, s\<lparr>poolCh := cs\<rparr>))"

subsection \<open>Creating connections\<close>

text \<open>
  \<^verbatim>\<open>UpdateSockErrorHandler\<close> and \<^verbatim>\<open>UpdateSockFactory\<close>. Of the hook the model keeps
  whether it is set (\<open>True\<close>) or \<^verbatim>\<open>nil\<close>, and the list of the errors it was called with.
\<close>

definition UpdateSockErrorHandler :: "bool \<Rightarrow> server \<Rightarrow> server" where
  "UpdateSockErrorHandler h s = s\<lparr>SocketErrorHook := h\<rparr>"

definition UpdateSockFactory :: "(nat \<Rightarrow> error + sock) \<Rightarrow> server \<Rightarrow> server" where
  "UpdateSockFactory f s = s\<lparr>socketFactory := f\<rparr>"

text \<open>
  \<^verbatim>\<open>callSockFactory\<close>: one call of the factory; an error goes to the hook when one is
  set. \<^verbatim>\<open>CallSockFactory\<close> is the same call under the read lock.
\<close>

definition callSockFactory :: "server \<Rightarrow> (error + sock) \<times> server" where
  "callSockFactory s =
     (let r = socketFactory s (factory_calls s);
          s1 = s\<lparr>factory_calls := Suc (factory_calls s)\<rparr>
      in case r of
           Inl err \<Rightarrow>
             (if SocketErrorHook s1
              then (Inl err, s1\<lparr>hook_log := hook_log s1 @ [err]\<rparr>)
              else (Inl err, s1))
         | Inr sock \<Rightarrow> (Inr sock, s1))"

definition CallSockFactory :: "server \<Rightarrow> (error + sock) \<times> server" where
  "CallSockFactory s = callSockFactory s"

text \<open>
  Modelled from the spec: \<^verbatim>\<open>makeConn\<close> is not among the sources. A connection is created
  healthy around its transport. Its address is the number of connections made before.
\<close>

definition makeConn :: "sock \<Rightarrow> server \<Rightarrow> conn \<times> server" where
  "makeConn sock s =
     (\<lparr>cid = conns_made s, socket = sock, failing = False\<rparr>,
      s\<lparr>conns_made := Suc (conns_made s)\<rparr>)"

text \<open>\<^verbatim>\<open>newConn\<close> returns \<open>Some err\<close> for the error and \<open>None\<close> for \<^verbatim>\<open>nil\<close>.\<close>

definition newConn :: "server \<Rightarrow> error option outcome" where
  "newConn s =
     (case CallSockFactory s of
        (Inl err, s1) \<Rightarrow> Return (Some err) s1
      | (Inr sock, s1) \<Rightarrow>
          (let s2 = s1\<lparr>count := count s1 + 1\<rparr>
           in case makeConn sock s2 of
                (c, s3) \<Rightarrow>
                  (case chan_send c s3 of
                     None \<Rightarrow> Blocked s3
                   | Some s4 \<Rightarrow> Return None s4)))"

text \<open>
  The loop of \<^verbatim>\<open>GetConn\<close>, lines 83 to 88:
  \<^verbatim>\<open>for i := int64(0); i < (s.poolSize - s.count); i++\<close>. The bound is read again
  before every iteration, after \<^verbatim>\<open>newConn\<close> has incremented \<^verbatim>\<open>s.count\<close>.
\<close>

function GetConn_loop :: "int \<Rightarrow> server \<Rightarrow> error option outcome" where
  "GetConn_loop i s =
     (if i < poolSize s - count s
      then (case newConn s of
              Return None s' \<Rightarrow> GetConn_loop (i + 1) s'
            | Return (Some err) s' \<Rightarrow> Return (Some err) s'
            | Blocked s' \<Rightarrow> Blocked s'
            | Panic s' \<Rightarrow> Panic s')
      else Return None s)"
  by pat_completeness auto

text \<open>
  Lines 80 to 94 of \<^verbatim>\<open>GetConn\<close>: the unlocked read of the count, the second read under
  \<^verbatim>\<open>cntlock\<close>, the loop.
\<close>

definition GetConn_grow :: "server \<Rightarrow> error option outcome" where
  "GetConn_grow s =
     (if count s < poolSize s
      then (if count s < poolSize s then GetConn_loop 0 s else Return None s)
      else Return None s)"

text \<open>
  Modelled from the spec: \<^verbatim>\<open>tryReconnIfFailed\<close> is not among the sources. The repair
  of section 4.2: the pool's current factory is called under shared configuration
  access; on success the held transport is replaced (the old one is destroyed) and
  the failing flag is cleared; when the factory call fails the connection is left
  failing and the error is returned. \<^verbatim>\<open>GetConn\<close> calls it on failing connections only.
\<close>

definition tryReconnIfFailed :: "conn \<Rightarrow> server \<Rightarrow> error option \<times> conn \<times> server" where
  "tryReconnIfFailed c s =
     (case CallSockFactory s of
        (Inl err, s1) \<Rightarrow> (Some err, c, s1)
      | (Inr sock, s1) \<Rightarrow>
          (None, c\<lparr>socket := sock, failing := False\<rparr>,
           s1\<lparr>closed_socks := closed_socks s1 @ [socket c]\<rparr>))"

text \<open>Lines 96 to 105 of \<^verbatim>\<open>GetConn\<close>: the receive from the channel and the repair.\<close>

definition GetConn_take :: "server \<Rightarrow> (error + conn) outcome" where
  "GetConn_take s =
     (case chan_recv s of
        None \<Rightarrow> Blocked s
      | Some (c, s1) \<Rightarrow>
          (if failing c
           then (case tryReconnIfFailed c s1 of
                   (Some err, c', s2) \<Rightarrow>
                     (case chan_send c' s2 of
                        None \<Rightarrow> Blocked s2
                      | Some s3 \<Rightarrow> Return (Inl err) s3)
                 | (None, c', s2) \<Rightarrow> Return (Inr c') s2)
           else Return (Inr c) s1))"

definition GetConn :: "server \<Rightarrow> (error + conn) outcome" where
  "GetConn s =
     (case GetConn_grow s of
        Return (Some err) s1 \<Rightarrow> Return (Inl err) s1
      | Return None s1 \<Rightarrow> GetConn_take s1
      | Blocked s1 \<Rightarrow> Blocked s1
      | Panic s1 \<Rightarrow> Panic s1)"

definition PutConn :: "conn \<Rightarrow> server \<Rightarrow> unit outcome" where
  "PutConn c s =
     (case chan_send c s of
        None \<Rightarrow> Blocked s
      | Some s1 \<Rightarrow> Return () s1)"

subsection \<open>The heartbeat\<close>

text \<open>
  Modelled from the spec: \<^verbatim>\<open>conn.Heartbeat\<close> is not among the sources. The probe is sent
  on the connection's transport; a failed probe marks the connection failing.
\<close>

definition conn_Heartbeat :: "conn \<Rightarrow> server \<Rightarrow> conn \<times> server" where
  "conn_Heartbeat c s =
     (let ok = ping s (pings s);
          s1 = s\<lparr>pings := Suc (pings s), ping_log := ping_log s @ [cid c]\<rparr>
      in (if ok then c else c\<lparr>failing := True\<rparr>, s1))"

text \<open>
  One pass through the \<^verbatim>\<open>for\<close> of \<^verbatim>\<open>broadcastHeartbeat\<close>: \<open>Inl\<close> when the function is
  left (the \<^verbatim>\<open>default\<close> case returns; a send that cannot go through waits), \<open>Inr\<close> with
  the state in which the next pass starts.
\<close>

definition broadcastHeartbeat_pass :: "server \<Rightarrow> unit outcome + server" where
  "broadcastHeartbeat_pass s =
     (case chan_recv s of
        None \<Rightarrow> Inl (Return () s)
      | Some (c, s1) \<Rightarrow>
          (let (c', s2) = (if \<not> failing c then conn_Heartbeat c s1 else (c, s1))
           in case PutConn c' s2 of
                Return u s3 \<Rightarrow> Inr s3
              | Blocked s3 \<Rightarrow> Inl (Blocked s3)
              | Panic s3 \<Rightarrow> Inl (Panic s3)))"

text \<open>
  \<^verbatim>\<open>broadcastHeartbeat\<close>. The loop has no bound, so the function is partial: \<open>None\<close> is
  a sweep that never leaves the loop.
\<close>

partial_function (option) broadcastHeartbeat :: "server \<Rightarrow> unit outcome option" where
  "broadcastHeartbeat s =
     (case broadcastHeartbeat_pass s of
        Inl out \<Rightarrow> Some out
      | Inr s' \<Rightarrow> broadcastHeartbeat s')"

text \<open>The state of the server after at most \<open>n\<close> passes of the sweep.\<close>

fun broadcastHeartbeat_upto :: "nat \<Rightarrow> server \<Rightarrow> server" where
  "broadcastHeartbeat_upto 0 s = s"
| "broadcastHeartbeat_upto (Suc n) s =
     (case broadcastHeartbeat_pass s of
        Inl out \<Rightarrow> state_of out
      | Inr s' \<Rightarrow> broadcastHeartbeat_upto n s')"

text \<open>
  \<^verbatim>\<open>time.Duration(interval) * time.Second\<close>: a signed 64-bit product, in nanoseconds.
\<close>

definition timer_duration :: "int \<Rightarrow> int" where
  "timer_duration interval = (interval * 1000000000 + 2 ^ 63) mod 2 ^ 64 - 2 ^ 63"

text \<open>
  \<^verbatim>\<open>strconv.Atoi\<close> of the Go standard library, where \<^verbatim>\<open>int\<close> has 64 bits: an optional
  sign, then at least one decimal digit and nothing else; a value outside the range of
  \<^verbatim>\<open>int\<close> is an error. \<open>None\<close> stands for a non-nil error.
\<close>

fun parse_digits :: "nat \<Rightarrow> string \<Rightarrow> nat option" where
  "parse_digits n [] = Some n"
| "parse_digits n (ch # cs) =
     (if 48 \<le> (of_char ch :: nat) \<and> (of_char ch :: nat) \<le> 57
      then parse_digits (n * 10 + ((of_char ch :: nat) - 48)) cs
      else None)"

definition Atoi :: "string \<Rightarrow> int option" where
  "Atoi s =
     (case s of
        [] \<Rightarrow> None
      | ch # cs \<Rightarrow>
          (let neg = (ch = CHR ''-'');
               ds = (if ch = CHR ''-'' \<or> ch = CHR ''+'' then cs else s)
           in if ds = [] then None
              else (case parse_digits 0 ds of
                      None \<Rightarrow> None
                    | Some n \<Rightarrow>
                        (if neg
                         then (if int n \<le> 9223372036854775808 then Some (- int n) else None)
                         else (if int n < 9223372036854775808 then Some (int n) else None)))))"

text \<open>\<^verbatim>\<open>os.Getenv\<close>: the value of the variable, the empty string when it is not set.\<close>

definition Getenv :: "(string \<rightharpoonup> string) \<Rightarrow> string \<Rightarrow> string" where
  "Getenv env k = (case env k of None \<Rightarrow> [] | Some v \<Rightarrow> v)"

definition HEARTBEAT_INTERVAL :: int where
  "HEARTBEAT_INTERVAL = 20"

definition DEFAULT_POOL_SIZE :: int where
  "DEFAULT_POOL_SIZE = 8"

text \<open>Lines 127 to 134 of \<^verbatim>\<open>runHeartbeatCo\<close>: the interval, in seconds.\<close>

definition runHeartbeatCo_interval :: "(string \<rightharpoonup> string) \<Rightarrow> int" where
  "runHeartbeatCo_interval env =
     (let interval = HEARTBEAT_INTERVAL;
          intervalRaw = Getenv env ''T1K_HEARTBEAT_INTERVAL''
      in if intervalRaw \<noteq> []
         then (case Atoi intervalRaw of
                 Some val \<Rightarrow> val
               | None \<Rightarrow> interval)
         else interval)"

text \<open>
  Lines 135 to 143 of \<^verbatim>\<open>runHeartbeatCo\<close>. What the \<^verbatim>\<open>select\<close> of each round receives
  is given from outside, together with the environment as it is at that moment (which
  the loop does not read). The result lists the durations of the timers that were
  made, and says how the loop was left: \<open>Some (Return ())\<close> after the close signal,
  \<open>Some (Blocked _)\<close> waiting in \<^verbatim>\<open>select\<close>, \<open>None\<close> in a sweep that does not return.
\<close>

datatype select_case = CloseCh | TimerC "string \<rightharpoonup> string"

fun runHeartbeatCo_rounds ::
  "int \<Rightarrow> select_case list \<Rightarrow> server \<Rightarrow> int list \<times> unit outcome option" where
  "runHeartbeatCo_rounds interval [] s = ([timer_duration interval], Some (Blocked s))"
| "runHeartbeatCo_rounds interval (CloseCh # evs) s =
     ([timer_duration interval], Some (Return () s))"
| "runHeartbeatCo_rounds interval (TimerC env # evs) s =
     (case broadcastHeartbeat s of
        None \<Rightarrow> ([timer_duration interval], None)
      | Some (Return u s1) \<Rightarrow>
          (let (ds, out) = runHeartbeatCo_rounds interval evs s1
           in (timer_duration interval # ds, out))
      | Some (Blocked s1) \<Rightarrow> ([timer_duration interval], Some (Blocked s1))
      | Some (Panic s1) \<Rightarrow> ([timer_duration interval], Some (Panic s1)))"

definition runHeartbeatCo ::
  "(string \<rightharpoonup> string) \<Rightarrow> select_case list \<Rightarrow> server \<Rightarrow> int list \<times> unit outcome option" where
  "runHeartbeatCo env evs s = runHeartbeatCo_rounds (runHeartbeatCo_interval env) evs s"

subsection \<open>Detection\<close>

text \<open>
  Modelled from the spec: the detection operations of \<^verbatim>\<open>conn\<close> are not among the
  sources. An exchange returns its result or an error; an error marks the connection
  failing (section 4.2).
\<close>

definition conn_exchange :: "conn \<Rightarrow> server \<Rightarrow> (error + result \<times> result) \<times> conn \<times> server" where
  "conn_exchange c s =
     (let r = exchange s (exchanges s);
          s1 = s\<lparr>exchanges := Suc (exchanges s)\<rparr>
      in case r of
           Inl err \<Rightarrow> (Inl err, c\<lparr>failing := True\<rparr>, s1)
         | Inr v \<Rightarrow> (Inr v, c, s1))"

text \<open>
  The body shared by \<^verbatim>\<open>DetectRequestInCtx\<close>, \<^verbatim>\<open>DetectResponseInCtx\<close>,
  \<^verbatim>\<open>DetectHttpRequest\<close> and \<^verbatim>\<open>DetectRequest\<close> once \<^verbatim>\<open>GetConn\<close> has returned a connection:
  the exchange, then the deferred \<^verbatim>\<open>s.PutConn(c)\<close>.
\<close>

definition exchange_then_put :: "conn \<Rightarrow> server \<Rightarrow> (error + result) outcome" where
  "exchange_then_put c s =
     (case conn_exchange c s of
        (r, c', s1) \<Rightarrow>
          (case PutConn c' s1 of
             Return u s2 \<Rightarrow> Return (map_sum id fst r) s2
           | Blocked s2 \<Rightarrow> Blocked s2
           | Panic s2 \<Rightarrow> Panic s2))"

definition DetectRequestInCtx :: "server \<Rightarrow> (error + result) outcome" where
  "DetectRequestInCtx s =
     (case GetConn s of
        Return (Inl err) s1 \<Rightarrow> Return (Inl err) s1
      | Return (Inr c) s1 \<Rightarrow> exchange_then_put c s1
      | Blocked s1 \<Rightarrow> Blocked s1
      | Panic s1 \<Rightarrow> Panic s1)"

definition DetectResponseInCtx :: "server \<Rightarrow> (error + result) outcome" where
  "DetectResponseInCtx s =
     (case GetConn s of
        Return (Inl err) s1 \<Rightarrow> Return (Inl (ErrorWrap err [])) s1
      | Return (Inr c) s1 \<Rightarrow> exchange_then_put c s1
      | Blocked s1 \<Rightarrow> Blocked s1
      | Panic s1 \<Rightarrow> Panic s1)"

definition Detect :: "server \<Rightarrow> (error + result \<times> result) outcome" where
  "Detect s =
     (case GetConn s of
        Return (Inl err) s1 \<Rightarrow> Return (Inl (ErrorWrap err [])) s1
      | Return (Inr c) s1 \<Rightarrow>
          (case conn_exchange c s1 of
             (Inr v, c', s2) \<Rightarrow>
               (case PutConn c' s2 of
                  Return u s3 \<Rightarrow> Return (Inr v) s3
                | Blocked s3 \<Rightarrow> Blocked s3
                | Panic s3 \<Rightarrow> Panic s3)
           | (Inl err, c', s2) \<Rightarrow> Return (Inl err) s2)
      | Blocked s1 \<Rightarrow> Blocked s1
      | Panic s1 \<Rightarrow> Panic s1)"

definition DetectHttpRequest :: "server \<Rightarrow> (error + result) outcome" where
  "DetectHttpRequest s =
     (case GetConn s of
        Return (Inl err) s1 \<Rightarrow> Return (Inl err) s1
      | Return (Inr c) s1 \<Rightarrow> exchange_then_put c s1
      | Blocked s1 \<Rightarrow> Blocked s1
      | Panic s1 \<Rightarrow> Panic s1)"

definition DetectRequest :: "server \<Rightarrow> (error + result) outcome" where
  "DetectRequest s =
     (case GetConn s of
        Return (Inl err) s1 \<Rightarrow> Return (Inl err) s1
      | Return (Inr c) s1 \<Rightarrow> exchange_then_put c s1
      | Blocked s1 \<Rightarrow> Blocked s1
      | Panic s1 \<Rightarrow> Panic s1)"

subsection \<open>Shutdown\<close>

text \<open>
  Modelled from the spec: \<^verbatim>\<open>conn.Close\<close> is not among the sources. It closes the
  connection's transport.
\<close>

definition conn_Close :: "conn \<Rightarrow> server \<Rightarrow> server" where
  "conn_Close c s = s\<lparr>closed_socks := closed_socks s @ [socket c]\<rparr>"

text \<open>
  Modelled from the spec: \<^verbatim>\<open>HealthCheckService.Close\<close> is not among the sources. It
  stops the health-check loop.
\<close>

definition healthCheck_Close :: "server \<Rightarrow> server" where
  "healthCheck_Close s = s\<lparr>healthCheck_closed := True\<rparr>"

text \<open>
  The loop of \<^verbatim>\<open>Close\<close>, lines 259 to 266, with the call of
  \<^verbatim>\<open>s.healthCheck.Close()\<close> that follows it. \<^verbatim>\<open>s.count\<close> is read again before every
  iteration.
\<close>

function Close_loop :: "int \<Rightarrow> server \<Rightarrow> unit outcome" where
  "Close_loop i s =
     (if i < count s
      then (case GetConn s of
              Return (Inl err) s1 \<Rightarrow> Return () s1
            | Return (Inr c) s1 \<Rightarrow> Close_loop (i + 1) (conn_Close c s1)
            | Blocked s1 \<Rightarrow> Blocked s1
            | Panic s1 \<Rightarrow> Panic s1)
      else Return () (healthCheck_Close s))"
  by pat_completeness auto

text \<open>
  \<^verbatim>\<open>Close\<close>. \<^verbatim>\<open>close(s.closeCh)\<close> panics when the channel has been closed before.
\<close>

definition Close :: "server \<Rightarrow> unit outcome" where
  "Close s =
     (if closeCh s then Panic s
      else Close_loop 0 (s\<lparr>closeCh := True\<rparr>))"

subsection \<open>Construction\<close>

text \<open>
  \<^verbatim>\<open>NewFromSocketFactoryWithPoolSize\<close>. \<^verbatim>\<open>make(chan *conn, poolSize)\<close> panics on a
  negative size and on a size the runtime cannot allocate (\<open>None\<close>); the largest
  capacity the runtime can allocate depends on the platform and is the parameter
  \<open>cap_max\<close>. \<^verbatim>\<open>NewHealthCheckService\<close> is not among the sources; what it returns is
  the parameter \<open>hc\<close> (\<open>Some err\<close> for an error). The tables of the probes' and
  exchanges' outcomes belong to the environment and are parameters as well.
\<close>

definition NewFromSocketFactoryWithPoolSize ::
  "(nat \<Rightarrow> error + sock) \<Rightarrow> int \<Rightarrow> int \<Rightarrow> error option \<Rightarrow> (nat \<Rightarrow> bool) \<Rightarrow>
   (nat \<Rightarrow> error + result \<times> result) \<Rightarrow> (error + server) option" where
  "NewFromSocketFactoryWithPoolSize f n cap_max hc pg ex =
     (if n < 0 \<or> cap_max < n then None
      else (case hc of
              Some err \<Rightarrow> Some (Inl err)
            | None \<Rightarrow>
                Some (Inr \<lparr>socketFactory = f, factory_calls = 0, SocketErrorHook = False,
                  hook_log = [], poolCh = [], poolSize = n, count = 0, closeCh = False,
                  healthCheck_closed = False, closed_socks = [], ping = pg, pings = 0,
                  ping_log = [], exchange = ex, exchanges = 0, conns_made = 0\<rparr>)))"

definition NewFromSocketFactory ::
  "(nat \<Rightarrow> error + sock) \<Rightarrow> int \<Rightarrow> error option \<Rightarrow> (nat \<Rightarrow> bool) \<Rightarrow>
   (nat \<Rightarrow> error + result \<times> result) \<Rightarrow> (error + server) option" where
  "NewFromSocketFactory f cap_max hc pg ex =
     NewFromSocketFactoryWithPoolSize f DEFAULT_POOL_SIZE cap_max hc pg ex"

subsection \<open>Sequences of operations\<close>

text \<open>
  The operations a caller or the heartbeat goroutine can run on a server, and the
  state each one leaves behind, whether it returns, waits or panics.
  \<open>OpHeartbeat n\<close> is a sweep seen after at most \<open>n\<close> passes of its loop.
\<close>

datatype op =
    OpGetConn
  | OpPutConn conn
  | OpDetectRequestInCtx
  | OpDetectResponseInCtx
  | OpDetect
  | OpDetectHttpRequest
  | OpDetectRequest
  | OpHeartbeat nat
  | OpClose
  | OpUpdateSockFactory "nat \<Rightarrow> error + sock"
  | OpUpdateSockErrorHandler bool

fun exec :: "op \<Rightarrow> server \<Rightarrow> server" where
  "exec OpGetConn s = state_of (GetConn s)"
| "exec (OpPutConn c) s = state_of (PutConn c s)"
| "exec OpDetectRequestInCtx s = state_of (DetectRequestInCtx s)"
| "exec OpDetectResponseInCtx s = state_of (DetectResponseInCtx s)"
| "exec OpDetect s = state_of (Detect s)"
| "exec OpDetectHttpRequest s = state_of (DetectHttpRequest s)"
| "exec OpDetectRequest s = state_of (DetectRequest s)"
| "exec (OpHeartbeat n) s = broadcastHeartbeat_upto n s"
| "exec OpClose s = state_of (Close s)"
| "exec (OpUpdateSockFactory f) s = UpdateSockFactory f s"
| "exec (OpUpdateSockErrorHandler h) s = UpdateSockErrorHandler h s"

fun run :: "op list \<Rightarrow> server \<Rightarrow> server" where
  "run [] s = s"
| "run (x # xs) s = run xs (exec x s)"

subsection \<open>Example servers\<close>

text \<open>A factory whose every call succeeds, and one whose calls fail from the n-th on.\<close>

definition always_ok :: "nat \<Rightarrow> error + sock" where
  "always_ok k = Inr k"

definition ok_until :: "nat \<Rightarrow> nat \<Rightarrow> error + sock" where
  "ok_until n k = (if k < n then Inr k else Inl (Err k))"

text \<open>
  The server that \<^verbatim>\<open>NewFromSocketFactoryWithPoolSize\<close> returns for a pool size the
  runtime can allocate, when every probe and every exchange succeeds.
\<close>

definition new_server :: "(nat \<Rightarrow> error + sock) \<Rightarrow> int \<Rightarrow> server" where
  "new_server f n =
     \<lparr>socketFactory = f, factory_calls = 0, SocketErrorHook = False,
      hook_log = [], poolCh = [], poolSize = n, count = 0, closeCh = False,
      healthCheck_closed = False, closed_socks = [], ping = (\<lambda>k. True), pings = 0,
      ping_log = [], exchange = (\<lambda>k. Inr (0, 0)), exchanges = 0, conns_made = 0\<rparr>"

text \<open>The first two connections a server makes from \<open>always_ok\<close>.\<close>

definition conn0 :: conn where
  "conn0 = \<lparr>cid = 0, socket = 0, failing = False\<rparr>"

definition conn1 :: conn where
  "conn1 = \<lparr>cid = 1, socket = 1, failing = False\<rparr>"

subsection \<open>Auxiliary notions\<close>

text \<open>
  What every operation keeps: the pool size stays, the count does not fall and does
  not pass the larger of its old value and the pool size, the count moves together
  with the number of connections made, the number of factory calls does not fall, and
  a channel buffer within its capacity stays within its capacity.
\<close>

definition steady :: "server \<Rightarrow> server \<Rightarrow> bool" where
  "steady s s' \<longleftrightarrow>
     poolSize s' = poolSize s \<and> count s \<le> count s' \<and>
     count s' \<le> max (count s) (poolSize s) \<and>
     count s' - int (conns_made s') = count s - int (conns_made s) \<and>
     factory_calls s \<le> factory_calls s' \<and>
     (int (length (poolCh s)) \<le> poolSize s \<longrightarrow> int (length (poolCh s')) \<le> poolSize s')"

text \<open>The connections that \<open>k\<close> successful calls of \<^verbatim>\<open>newConn\<close> add to the queue.\<close>

definition made_conns :: "server \<Rightarrow> nat \<Rightarrow> conn list" where
  "made_conns s k =
     map (\<lambda>j. \<lparr>cid = conns_made s + j,
               socket = projr (socketFactory s (factory_calls s + j)),
               failing = False\<rparr>) [0..<k]"

section \<open>Properties\<close>

subsection \<open>Termination of the loops\<close>

lemma newConn_count:
  "newConn s = Return None s' \<Longrightarrow> count s' = count s + 1 \<and> poolSize s' = poolSize s"
  by (auto simp: newConn_def CallSockFactory_def callSockFactory_def chan_send_def
      makeConn_def Let_def split: sum.splits if_splits option.splits)

termination GetConn_loop
  by (relation "measure (\<lambda>(i, s). nat (poolSize s - count s - i))")
     (auto dest: newConn_count)

declare GetConn_loop.simps [simp del]

lemma steady_refl: "steady s s"
  by (simp add: steady_def)

lemma steady_trans: "steady s t \<Longrightarrow> steady t u \<Longrightarrow> steady s u"
  by (auto simp: steady_def)

lemma newConn_steady: "count s < poolSize s \<Longrightarrow> steady s (state_of (newConn s))"
  by (auto simp: steady_def newConn_def CallSockFactory_def callSockFactory_def chan_send_def
      makeConn_def Let_def split: sum.splits if_splits option.splits)

lemma GetConn_loop_steady: "0 \<le> i \<Longrightarrow> steady s (state_of (GetConn_loop i s))"
proof (induction i s rule: GetConn_loop.induct)
  case (1 i s)
  show ?case
  proof (cases "i < poolSize s - count s")
    case False
    then show ?thesis by (simp add: GetConn_loop.simps [of i s] steady_refl)
  next
    case True
    with "1.prems" have "count s < poolSize s" by simp
    then have st: "steady s (state_of (newConn s))" by (rule newConn_steady)
    show ?thesis
    proof (cases "newConn s")
      case (Return r s')
      show ?thesis
      proof (cases r)
        case None
        with Return True have eq: "GetConn_loop i s = GetConn_loop (i + 1) s'"
          by (simp add: GetConn_loop.simps [of i s])
        from "1.prems" have "0 \<le> i + 1" by simp
        with Return None have "steady s' (state_of (GetConn_loop (i + 1) s'))"
          using "1.IH" [OF True] by simp
        with st Return show ?thesis unfolding eq by (auto intro: steady_trans)
      next
        case (Some err)
        with Return True st show ?thesis
          by (simp add: GetConn_loop.simps [of i s])
      qed
    next
      case (Blocked s')
      with True st show ?thesis by (simp add: GetConn_loop.simps [of i s])
    next
      case (Panic s')
      with True st show ?thesis by (simp add: GetConn_loop.simps [of i s])
    qed
  qed
qed

lemma GetConn_grow_steady: "steady s (state_of (GetConn_grow s))"
  using GetConn_loop_steady [of 0 s] by (simp add: GetConn_grow_def steady_refl)

lemma tryReconnIfFailed_fields:
  "tryReconnIfFailed c s = (r, c', s') \<Longrightarrow>
   poolSize s' = poolSize s \<and> count s' = count s \<and> poolCh s' = poolCh s \<and>
   conns_made s' = conns_made s \<and> factory_calls s' = Suc (factory_calls s)"
  by (auto simp: tryReconnIfFailed_def CallSockFactory_def callSockFactory_def Let_def
      split: sum.splits if_splits)

lemma GetConn_take_steady: "steady s (state_of (GetConn_take s))"
  by (auto simp: steady_def GetConn_take_def chan_recv_def chan_send_def
      split: list.splits option.splits prod.splits if_splits
      dest: tryReconnIfFailed_fields)

lemma GetConn_steady: "steady s (state_of (GetConn s))"
proof (cases "GetConn_grow s")
  case (Return r s1)
  with GetConn_grow_steady [of s] GetConn_take_steady [of s1] show ?thesis
    by (cases r) (auto simp: GetConn_def intro: steady_trans)
next
  case (Blocked s1)
  with GetConn_grow_steady [of s] show ?thesis by (simp add: GetConn_def)
next
  case (Panic s1)
  with GetConn_grow_steady [of s] show ?thesis by (simp add: GetConn_def)
qed

termination Close_loop
proof (relation "measure (\<lambda>(i, s). nat (max (poolSize s) (count s) - i))")
  show "wf (measure (\<lambda>(i, s). nat (max (poolSize s) (count s) - i)))" by simp
next
  fix i :: int and s :: server and x1 :: "error + conn" and s1 :: server and c :: conn
  assume lt: "i < count s" and g: "GetConn s = Return x1 s1" and x: "x1 = Inr c"
  from GetConn_steady [of s] g
  have "poolSize s1 = poolSize s" "count s1 \<le> max (count s) (poolSize s)"
    by (simp_all add: steady_def)
  with lt show "((i + 1, conn_Close c s1), (i, s))
      \<in> measure (\<lambda>(i, s). nat (max (poolSize s) (count s) - i))"
    by (auto simp: conn_Close_def)
qed

declare Close_loop.simps [simp del]

subsection \<open>Constructed servers\<close>

lemma new_server_constructed:
  "0 \<le> n \<Longrightarrow> n \<le> cap_max \<Longrightarrow>
   NewFromSocketFactoryWithPoolSize f n cap_max None (\<lambda>k. True) (\<lambda>k. Inr (0, 0)) =
     Some (Inr (new_server f n))"
  by (simp add: NewFromSocketFactoryWithPoolSize_def new_server_def)

lemmas eval_defs =
  new_server_def always_ok_def ok_until_def conn0_def conn1_def
  GetConn_def GetConn_grow_def GetConn_take_def GetConn_loop.simps newConn_def
  CallSockFactory_def callSockFactory_def chan_send_def chan_recv_def makeConn_def
  tryReconnIfFailed_def PutConn_def Let_def Close_def Close_loop.simps conn_Close_def
  healthCheck_Close_def

subsection \<open>Growth of the pool\<close>

text \<open>
  C1 (the growth step of one \<^verbatim>\<open>GetConn\<close> call). The claim is that one call raises the
  count to the pool size with \<open>N - count\<close> factory calls. The loop of \<^verbatim>\<open>GetConn\<close> compares
  its index with \<^verbatim>\<open>s.poolSize - s.count\<close>, and \<^verbatim>\<open>newConn\<close> increments \<^verbatim>\<open>s.count\<close> in every
  iteration, so index and bound meet halfway. On a new server of pool size 8 whose
  factory always succeeds, the first \<^verbatim>\<open>GetConn\<close> returns a connection after 4 factory
  calls, with the count at 4 and not at 8.
\<close>

theorem GetConn_first_call_makes_half:
  "GetConn (new_server always_ok 8) =
     Return (Inr conn0) (state_of (GetConn (new_server always_ok 8))) \<and>
   poolSize (state_of (GetConn (new_server always_ok 8))) = 8 \<and>
   count (state_of (GetConn (new_server always_ok 8))) = 4 \<and>
   factory_calls (state_of (GetConn (new_server always_ok 8))) = 4 \<and>
   length (poolCh (state_of (GetConn (new_server always_ok 8)))) = 3"
  by (simp add: eval_defs)

subsection \<open>Shutdown\<close>

text \<open>
  C3 (\<^verbatim>\<open>Close\<close> closes the Health-Check Service on every return path). In the loop of
  \<^verbatim>\<open>Close\<close> a failed \<^verbatim>\<open>GetConn\<close> leads to a bare \<^verbatim>\<open>return\<close>, which skips
  \<^verbatim>\<open>s.healthCheck.Close()\<close>. Take a pool of size 2 whose factory succeeds once and
  fails from then on; acquire and release the one connection the first \<^verbatim>\<open>GetConn\<close>
  makes. \<^verbatim>\<open>Close\<close> then returns with the shutdown signalled and the Health-Check
  Service not closed.
\<close>

theorem Close_early_return_skips_healthCheck:
  "Close (run [OpGetConn, OpPutConn conn0] (new_server (ok_until 1) 2)) =
     Return () (state_of (Close (run [OpGetConn, OpPutConn conn0] (new_server (ok_until 1) 2)))) \<and>
   closeCh (state_of (Close (run [OpGetConn, OpPutConn conn0] (new_server (ok_until 1) 2)))) \<and>
   \<not> healthCheck_closed
       (state_of (Close (run [OpGetConn, OpPutConn conn0] (new_server (ok_until 1) 2))))"
  by (simp add: eval_defs)

subsection \<open>The heartbeat interval\<close>

lemma runHeartbeatCo_rounds_timers:
  "fst (runHeartbeatCo_rounds i evs s) =
   replicate (length (fst (runHeartbeatCo_rounds i evs s))) (timer_duration i)"
proof (induction evs arbitrary: s)
  case Nil
  show ?case by simp
next
  case (Cons ev evs)
  show ?case
  proof (cases ev)
    case CloseCh
    then show ?thesis by simp
  next
    case (TimerC env)
    show ?thesis
    proof (cases "broadcastHeartbeat s")
      case None
      with TimerC show ?thesis by simp
    next
      case (Some out)
      show ?thesis
      proof (cases out)
        case (Return u s1)
        with TimerC Some Cons.IH [of s1] show ?thesis
          by (simp add: split_beta)
      next
        case (Blocked s1)
        with TimerC Some show ?thesis by simp
      next
        case (Panic s1)
        with TimerC Some show ?thesis by simp
      qed
    qed
  qed
qed

lemma runHeartbeatCo_rounds_nonempty: "fst (runHeartbeatCo_rounds i evs s) \<noteq> []"
proof (cases evs)
  case Nil
  then show ?thesis by simp
next
  case (Cons ev evs')
  then show ?thesis
    by (cases ev) (simp_all add: split_beta split: option.splits outcome.splits)
qed

text \<open>
  C8 (the heartbeat interval). The interval of \<^verbatim>\<open>runHeartbeatCo\<close> is the value of
  \<^verbatim>\<open>T1K_HEARTBEAT_INTERVAL\<close> when the variable is set and \<^verbatim>\<open>strconv.Atoi\<close> parses it,
  and 20 when it is not set or does not parse. It is computed once, before the loop:
  every timer the loop makes, in whatever environment the later rounds run, has the
  duration of that one interval.
\<close>

theorem runHeartbeatCo_interval_read_once:
  "runHeartbeatCo_interval env =
     (case env ''T1K_HEARTBEAT_INTERVAL'' of
        None \<Rightarrow> 20
      | Some raw \<Rightarrow> (case Atoi raw of Some v \<Rightarrow> v | None \<Rightarrow> 20)) \<and>
   fst (runHeartbeatCo env evs s) \<noteq> [] \<and>
   fst (runHeartbeatCo env evs s) =
     replicate (length (fst (runHeartbeatCo env evs s)))
       (timer_duration (runHeartbeatCo_interval env))"
proof -
  have "runHeartbeatCo_interval env =
     (case env ''T1K_HEARTBEAT_INTERVAL'' of
        None \<Rightarrow> 20
      | Some raw \<Rightarrow> (case Atoi raw of Some v \<Rightarrow> v | None \<Rightarrow> 20))"
    by (simp add: runHeartbeatCo_interval_def Getenv_def Atoi_def HEARTBEAT_INTERVAL_def
        split: option.splits)
  then show ?thesis
    using runHeartbeatCo_rounds_timers [of "runHeartbeatCo_interval env" evs s]
      runHeartbeatCo_rounds_nonempty [of "runHeartbeatCo_interval env" evs s]
    by (simp add: runHeartbeatCo_def)
qed

text \<open>
  The theorem at three environments: the variable set to 45, set to a string that is
  not a number, and not set; in the first, the timer made after a tick in an
  environment that has changed the variable still has the duration of 45 seconds.
\<close>

theorem runHeartbeatCo_interval_read_once_witness:
  "runHeartbeatCo_interval [''T1K_HEARTBEAT_INTERVAL'' \<mapsto> ''45''] = 45 \<and>
   runHeartbeatCo_interval [''T1K_HEARTBEAT_INTERVAL'' \<mapsto> ''4x5''] = 20 \<and>
   runHeartbeatCo_interval Map.empty = 20 \<and>
   fst (runHeartbeatCo [''T1K_HEARTBEAT_INTERVAL'' \<mapsto> ''45'']
          [TimerC [''T1K_HEARTBEAT_INTERVAL'' \<mapsto> ''7''], CloseCh]
          (new_server always_ok 1)) = [45000000000, 45000000000]"
proof -
  have e: "broadcastHeartbeat (new_server always_ok 1) = Some (Return () (new_server always_ok 1))"
    by (subst broadcastHeartbeat.simps)
       (simp add: broadcastHeartbeat_pass_def chan_recv_def new_server_def)
  have a: "Atoi ''45'' = Some 45" "Atoi ''4x5'' = None"
    by (simp_all add: Atoi_def)
  from a e
    runHeartbeatCo_interval_read_once [of "[''T1K_HEARTBEAT_INTERVAL'' \<mapsto> ''45'']"
      "[TimerC [''T1K_HEARTBEAT_INTERVAL'' \<mapsto> ''7''], CloseCh]" "new_server always_ok 1"]
    runHeartbeatCo_interval_read_once [of "[''T1K_HEARTBEAT_INTERVAL'' \<mapsto> ''4x5'']" "[]"
      "new_server always_ok 1"]
    runHeartbeatCo_interval_read_once [of Map.empty "[]" "new_server always_ok 1"]
  show ?thesis
    by (simp add: runHeartbeatCo_def timer_duration_def)
qed

subsection \<open>The heartbeat sweep\<close>

lemma broadcastHeartbeat_pass_Inr:
  "broadcastHeartbeat_pass s = Inr s' \<Longrightarrow>
   poolCh s \<noteq> [] \<and> poolCh s' \<noteq> [] \<and> length (poolCh s') = length (poolCh s) \<and>
   poolSize s' = poolSize s"
  by (auto simp: broadcastHeartbeat_pass_def chan_recv_def PutConn_def chan_send_def
      conn_Heartbeat_def Let_def split: list.splits option.splits if_splits)

lemma broadcastHeartbeat_pass_Inl:
  "broadcastHeartbeat_pass s = Inl out \<Longrightarrow> int (length (poolCh s)) \<le> poolSize s \<Longrightarrow>
   poolCh s = [] \<and> out = Return () s"
  by (auto simp: broadcastHeartbeat_pass_def chan_recv_def PutConn_def chan_send_def
      conn_Heartbeat_def Let_def split: list.splits option.splits if_splits)

lemma broadcastHeartbeat_returns_only_when_empty:
  assumes "broadcastHeartbeat s = Some out"
  shows "int (length (poolCh s)) \<le> poolSize s \<longrightarrow> poolCh s = []"
proof (rule broadcastHeartbeat.raw_induct
    [where P = "\<lambda>s out. int (length (poolCh s)) \<le> poolSize s \<longrightarrow> poolCh s = []", OF _ assms])
  fix bh :: "server \<Rightarrow> unit outcome option" and t :: server and r :: "unit outcome"
  assume ih: "\<And>x y. bh x = Some y \<Longrightarrow> int (length (poolCh x)) \<le> poolSize x \<longrightarrow> poolCh x = []"
    and eq: "(case broadcastHeartbeat_pass t of Inl out \<Rightarrow> Some out | Inr s' \<Rightarrow> bh s') = Some r"
  show "int (length (poolCh t)) \<le> poolSize t \<longrightarrow> poolCh t = []"
  proof (cases "broadcastHeartbeat_pass t")
    case (Inl o1)
    then show ?thesis using broadcastHeartbeat_pass_Inl [of t o1] by simp
  next
    case (Inr t')
    with eq have "bh t' = Some r" by simp
    from ih [OF this] broadcastHeartbeat_pass_Inr [OF Inr] show ?thesis by simp
  qed
qed

lemma broadcastHeartbeat_diverges:
  assumes "poolCh s \<noteq> []" and "int (length (poolCh s)) \<le> poolSize s"
  shows "broadcastHeartbeat s = None"
proof (cases "broadcastHeartbeat s")
  case None
  then show ?thesis .
next
  case (Some out)
  from broadcastHeartbeat_returns_only_when_empty [OF Some] assms show ?thesis by simp
qed

text \<open>
  C2 (the sweep ends after touching every idle connection once). Every pass of the loop
  of \<^verbatim>\<open>broadcastHeartbeat\<close> receives a connection and sends it back to the same channel
  before the next \<^verbatim>\<open>select\<close>, so the channel is never found empty and the
  \<^verbatim>\<open>default\<close> case is never taken: with no other goroutine taking connections, the
  sweep does not return. On a pool of size 1 whose one connection is idle, the sweep
  has no result, and after three passes of its loop the same connection has been
  probed three times and is back in the queue.
\<close>

theorem broadcastHeartbeat_never_returns:
  "broadcastHeartbeat (run [OpGetConn, OpPutConn conn0] (new_server always_ok 1)) = None \<and>
   ping_log (broadcastHeartbeat_upto 3
      (run [OpGetConn, OpPutConn conn0] (new_server always_ok 1))) = [0, 0, 0] \<and>
   poolCh (broadcastHeartbeat_upto 3
      (run [OpGetConn, OpPutConn conn0] (new_server always_ok 1))) = [conn0]"
proof -
  have "broadcastHeartbeat (run [OpGetConn, OpPutConn conn0] (new_server always_ok 1)) = None"
    by (rule broadcastHeartbeat_diverges) (simp_all add: eval_defs)
  moreover have "ping_log (broadcastHeartbeat_upto 3
      (run [OpGetConn, OpPutConn conn0] (new_server always_ok 1))) = [0, 0, 0]"
    by (simp add: eval_defs numeral_3_eq_3 broadcastHeartbeat_pass_def conn_Heartbeat_def)
  moreover have "poolCh (broadcastHeartbeat_upto 3
      (run [OpGetConn, OpPutConn conn0] (new_server always_ok 1))) = [conn0]"
    by (simp add: eval_defs numeral_3_eq_3 broadcastHeartbeat_pass_def conn_Heartbeat_def)
  ultimately show ?thesis by simp
qed

subsection \<open>The counters under every operation\<close>

lemma PutConn_steady: "steady s (state_of (PutConn c s))"
  by (auto simp: steady_def PutConn_def chan_send_def split: option.splits if_splits)

lemma conn_exchange_steady: "conn_exchange c s = (r, c', s') \<Longrightarrow> steady s s'"
  by (auto simp: steady_def conn_exchange_def Let_def split: sum.splits)

lemma exchange_then_put_steady: "steady s (state_of (exchange_then_put c s))"
proof (cases "conn_exchange c s")
  case (fields r c' s1)
  from conn_exchange_steady [OF fields] PutConn_steady [of s1 c'] show ?thesis
    by (cases "PutConn c' s1") (auto simp: exchange_then_put_def fields intro: steady_trans)
qed

lemma after_GetConn_steady:
  assumes "\<And>c s1. steady s1 (state_of (k c s1))"
  shows "steady s (state_of (case GetConn s of
            Return (Inl err) s1 \<Rightarrow> Return (Inl (w err)) s1
          | Return (Inr c) s1 \<Rightarrow> k c s1
          | Blocked s1 \<Rightarrow> Blocked s1
          | Panic s1 \<Rightarrow> Panic s1))"
proof (cases "GetConn s")
  case (Return r s1)
  show ?thesis
  proof (cases r)
    case (Inl err)
    with Return GetConn_steady [of s] show ?thesis by simp
  next
    case (Inr c)
    with Return GetConn_steady [of s] assms [of s1 c] show ?thesis
      by (auto intro: steady_trans)
  qed
next
  case (Blocked s1)
  with GetConn_steady [of s] show ?thesis by simp
next
  case (Panic s1)
  with GetConn_steady [of s] show ?thesis by simp
qed

lemma DetectRequestInCtx_steady: "steady s (state_of (DetectRequestInCtx s))"
  unfolding DetectRequestInCtx_def
  using after_GetConn_steady [of exchange_then_put s "\<lambda>e. e"]
  by (simp add: exchange_then_put_steady)

lemma DetectResponseInCtx_steady: "steady s (state_of (DetectResponseInCtx s))"
  unfolding DetectResponseInCtx_def
  using after_GetConn_steady [of exchange_then_put s "\<lambda>e. ErrorWrap e []"]
  by (simp add: exchange_then_put_steady)

lemma DetectHttpRequest_steady: "steady s (state_of (DetectHttpRequest s))"
  unfolding DetectHttpRequest_def
  using after_GetConn_steady [of exchange_then_put s "\<lambda>e. e"]
  by (simp add: exchange_then_put_steady)

lemma DetectRequest_steady: "steady s (state_of (DetectRequest s))"
  unfolding DetectRequest_def
  using after_GetConn_steady [of exchange_then_put s "\<lambda>e. e"]
  by (simp add: exchange_then_put_steady)

lemma Detect_body_steady:
  "steady s (state_of (case conn_exchange c s of
       (Inr v, c', s2) \<Rightarrow>
         (case PutConn c' s2 of
            Return u s3 \<Rightarrow> Return (Inr v) s3
          | Blocked s3 \<Rightarrow> Blocked s3
          | Panic s3 \<Rightarrow> Panic s3)
     | (Inl err, c', s2) \<Rightarrow> Return (Inl err) s2))"
proof (cases "conn_exchange c s")
  case (fields r c' s1)
  from conn_exchange_steady [OF fields] PutConn_steady [of s1 c'] show ?thesis
    by (cases r; cases "PutConn c' s1") (auto simp: fields intro: steady_trans)
qed

lemma Detect_steady: "steady s (state_of (Detect s))"
  unfolding Detect_def
  by (rule after_GetConn_steady [where w = "\<lambda>e. ErrorWrap e []"]) (rule Detect_body_steady)

lemma broadcastHeartbeat_pass_steady:
  "broadcastHeartbeat_pass s = Inl out \<Longrightarrow> steady s (state_of out)"
  "broadcastHeartbeat_pass s = Inr s' \<Longrightarrow> steady s s'"
  by (auto simp: steady_def broadcastHeartbeat_pass_def chan_recv_def PutConn_def
      chan_send_def conn_Heartbeat_def Let_def split: list.splits option.splits if_splits)

lemma broadcastHeartbeat_upto_steady: "steady s (broadcastHeartbeat_upto n s)"
proof (induction n arbitrary: s)
  case 0
  show ?case by (simp add: steady_refl)
next
  case (Suc n)
  show ?case
  proof (cases "broadcastHeartbeat_pass s")
    case (Inl out)
    then show ?thesis by (simp add: broadcastHeartbeat_pass_steady)
  next
    case (Inr s')
    with Suc.IH [of s'] broadcastHeartbeat_pass_steady(2) [OF Inr] show ?thesis
      by (auto intro: steady_trans)
  qed
qed

lemma Close_loop_steady: "steady s (state_of (Close_loop i s))"
proof (induction i s rule: Close_loop.induct)
  case (1 i s)
  show ?case
  proof (cases "i < count s")
    case False
    then show ?thesis
      by (simp add: Close_loop.simps [of i s] healthCheck_Close_def steady_def)
  next
    case True
    note g = GetConn_steady [of s]
    show ?thesis
    proof (cases "GetConn s")
      case (Return r s1)
      show ?thesis
      proof (cases r)
        case (Inl err)
        with Return True g show ?thesis by (simp add: Close_loop.simps [of i s])
      next
        case (Inr c)
        with Return True have eq: "Close_loop i s = Close_loop (i + 1) (conn_Close c s1)"
          by (simp add: Close_loop.simps [of i s])
        have "steady s1 (conn_Close c s1)" by (simp add: steady_def conn_Close_def)
        moreover from Return Inr
        have "steady (conn_Close c s1) (state_of (Close_loop (i + 1) (conn_Close c s1)))"
          using "1.IH" [OF True] by simp
        moreover from g Return have "steady s s1" by simp
        ultimately show ?thesis unfolding eq by (blast intro: steady_trans)
      qed
    next
      case (Blocked s1)
      with True g show ?thesis by (simp add: Close_loop.simps [of i s])
    next
      case (Panic s1)
      with True g show ?thesis by (simp add: Close_loop.simps [of i s])
    qed
  qed
qed

lemma Close_steady: "steady s (state_of (Close s))"
proof (cases "closeCh s")
  case True
  then show ?thesis by (simp add: Close_def steady_refl)
next
  case False
  have "steady s (s\<lparr>closeCh := True\<rparr>)" by (simp add: steady_def)
  with False Close_loop_steady [of "s\<lparr>closeCh := True\<rparr>" 0] show ?thesis
    by (auto simp: Close_def intro: steady_trans)
qed

lemma exec_steady: "steady s (exec x s)"
proof (cases x)
  case OpGetConn
  then show ?thesis by (simp add: GetConn_steady)
next
  case (OpPutConn c)
  then show ?thesis by (simp add: PutConn_steady)
next
  case OpDetectRequestInCtx
  then show ?thesis by (simp add: DetectRequestInCtx_steady)
next
  case OpDetectResponseInCtx
  then show ?thesis by (simp add: DetectResponseInCtx_steady)
next
  case OpDetect
  then show ?thesis by (simp add: Detect_steady)
next
  case OpDetectHttpRequest
  then show ?thesis by (simp add: DetectHttpRequest_steady)
next
  case OpDetectRequest
  then show ?thesis by (simp add: DetectRequest_steady)
next
  case (OpHeartbeat n)
  then show ?thesis by (simp add: broadcastHeartbeat_upto_steady)
next
  case OpClose
  then show ?thesis by (simp add: Close_steady)
next
  case (OpUpdateSockFactory f)
  then show ?thesis by (simp add: UpdateSockFactory_def steady_def)
next
  case (OpUpdateSockErrorHandler h)
  then show ?thesis by (simp add: UpdateSockErrorHandler_def steady_def)
qed

lemma run_steady: "steady s (run xs s)"
proof (induction xs arbitrary: s)
  case Nil
  show ?case by (simp add: steady_refl)
next
  case (Cons x xs)
  from exec_steady [of s x] Cons.IH [of "exec x s"] show ?case
    by (auto intro: steady_trans)
qed

lemma run_append: "run (xs @ ys) s = run ys (run xs s)"
  by (induction xs arbitrary: s) simp_all

lemma constructed_fields:
  "NewFromSocketFactoryWithPoolSize f n cap_max hc pg ex = Some (Inr s) \<Longrightarrow>
   0 \<le> n \<and> poolSize s = n \<and> count s = 0 \<and> conns_made s = 0 \<and> poolCh s = [] \<and>
   \<not> closeCh s \<and> \<not> healthCheck_closed s \<and> factory_calls s = 0"
  by (auto simp: NewFromSocketFactoryWithPoolSize_def split: if_splits option.splits)

text \<open>
  C4 (the count stays between 0 and the pool size). On a server made by
  \<^verbatim>\<open>NewFromSocketFactoryWithPoolSize\<close> with pool size \<open>n\<close> (whatever capacity the
  runtime can allocate), after every sequence of
  \<^verbatim>\<open>GetConn\<close>, \<^verbatim>\<open>PutConn\<close>, \<^verbatim>\<open>Detect*\<close>, heartbeat sweeps (each seen after any number of
  passes), \<^verbatim>\<open>Close\<close> and updates of the factory or the hook, whether the operations
  return, wait or panic, the count is at least 0 and at most \<open>n\<close>, and the pool size
  is still \<open>n\<close>.
\<close>

theorem count_between_0_and_poolSize:
  assumes "NewFromSocketFactoryWithPoolSize f n cap_max hc pg ex = Some (Inr s)"
  shows "0 \<le> count (run xs s) \<and> count (run xs s) \<le> n \<and> poolSize (run xs s) = n"
proof -
  from constructed_fields [OF assms]
  have "0 \<le> n" "poolSize s = n" "count s = 0" by simp_all
  with run_steady [of s xs] show ?thesis by (auto simp: steady_def)
qed

theorem count_between_0_and_poolSize_witness:
  "NewFromSocketFactoryWithPoolSize always_ok 2 1024 None (\<lambda>k. True) (\<lambda>k. Inr (0, 0)) =
     Some (Inr (new_server always_ok 2)) \<and>
   0 \<le> count (run [OpGetConn, OpPutConn conn0, OpDetect, OpHeartbeat 2, OpClose, OpGetConn]
                 (new_server always_ok 2)) \<and>
   count (run [OpGetConn, OpPutConn conn0, OpDetect, OpHeartbeat 2, OpClose, OpGetConn]
            (new_server always_ok 2)) \<le> 2"
proof -
  have h: "NewFromSocketFactoryWithPoolSize always_ok 2 1024 None (\<lambda>k. True) (\<lambda>k. Inr (0, 0)) =
     Some (Inr (new_server always_ok 2))"
    by (simp add: new_server_constructed)
  from h count_between_0_and_poolSize [OF h,
      of "[OpGetConn, OpPutConn conn0, OpDetect, OpHeartbeat 2, OpClose, OpGetConn]"]
  show ?thesis by simp
qed

text \<open>
  C9 as claimed says that \<^verbatim>\<open>Close\<close> leaves the count unchanged. With one idle connection
  in a pool of size 2, the \<^verbatim>\<open>GetConn\<close> that \<^verbatim>\<open>Close\<close> calls grows the pool, and \<^verbatim>\<open>Close\<close>
  raises the count from 1 to 2.
\<close>

theorem Close_changes_count_counterexample:
  "count (run [OpGetConn, OpPutConn conn0] (new_server always_ok 2)) = 1 \<and>
   count (state_of (Close (run [OpGetConn, OpPutConn conn0] (new_server always_ok 2)))) = 2 \<and>
   count (state_of (Close (run [OpGetConn, OpPutConn conn0] (new_server always_ok 2)))) \<noteq>
     count (run [OpGetConn, OpPutConn conn0] (new_server always_ok 2))"
  by (simp add: eval_defs)

text \<open>
  C9 (the count never decreases), as amended. On a server made by
  \<^verbatim>\<open>NewFromSocketFactoryWithPoolSize\<close>, the count after any sequence of operations is at
  most the count after any longer sequence, and it is the number of connections made
  so far. Closing a connection's transport does not change the count, and \<^verbatim>\<open>Close\<close>
  as a whole does not lower it (it can raise it, through the \<^verbatim>\<open>GetConn\<close> it calls).
\<close>

theorem count_never_decreases:
  assumes "NewFromSocketFactoryWithPoolSize f n cap_max hc pg ex = Some (Inr s)"
  shows "count (run xs s) \<le> count (run (xs @ ys) s) \<and>
         count (run xs s) = int (conns_made (run xs s)) \<and>
         count (conn_Close c (run xs s)) = count (run xs s) \<and>
         count (run xs s) \<le> count (state_of (Close (run xs s))) \<and>
         count (state_of (Close (run xs s))) =
           int (conns_made (state_of (Close (run xs s))))"
proof -
  from constructed_fields [OF assms] have z: "count s = 0" "conns_made s = 0" by simp_all
  have 1: "count (run xs s) \<le> count (run (xs @ ys) s)"
    using run_steady [of "run xs s" ys] by (simp add: run_append steady_def)
  have 2: "count (run xs s) = int (conns_made (run xs s))"
    using run_steady [of s xs] z by (simp add: steady_def)
  have 3: "count (conn_Close c (run xs s)) = count (run xs s)"
    by (simp add: conn_Close_def)
  have 4: "count (run xs s) \<le> count (state_of (Close (run xs s)))"
    using Close_steady [of "run xs s"] by (simp add: steady_def)
  have 5: "count (state_of (Close (run xs s))) = int (conns_made (state_of (Close (run xs s))))"
    using Close_steady [of "run xs s"] 2 by (simp add: steady_def)
  from 1 2 3 4 5 show ?thesis by simp
qed

theorem count_never_decreases_witness:
  "NewFromSocketFactoryWithPoolSize always_ok 2 1024 None (\<lambda>k. True) (\<lambda>k. Inr (0, 0)) =
     Some (Inr (new_server always_ok 2)) \<and>
   count (run [OpGetConn, OpPutConn conn0] (new_server always_ok 2)) \<le>
     count (run ([OpGetConn, OpPutConn conn0] @ [OpClose]) (new_server always_ok 2)) \<and>
   count (run [OpGetConn, OpPutConn conn0] (new_server always_ok 2)) = 1 \<and>
   conns_made (run [OpGetConn, OpPutConn conn0] (new_server always_ok 2)) = 1"
proof -
  have h: "NewFromSocketFactoryWithPoolSize always_ok 2 1024 None (\<lambda>k. True) (\<lambda>k. Inr (0, 0)) =
     Some (Inr (new_server always_ok 2))"
    by (simp add: new_server_constructed)
  have v: "conns_made (run [OpGetConn, OpPutConn conn0] (new_server always_ok 2)) = 1"
    by (simp add: eval_defs)
  note t = count_never_decreases [OF h, of "[OpGetConn, OpPutConn conn0]" "[OpClose]"]
  from t v have c: "count (run [OpGetConn, OpPutConn conn0] (new_server always_ok 2)) = 1"
    by simp
  from h t c v show ?thesis by blast
qed

subsection \<open>Factory failures during growth\<close>

lemma newConn_calls: "factory_calls (state_of (newConn s)) = Suc (factory_calls s)"
  by (auto simp: newConn_def CallSockFactory_def callSockFactory_def chan_send_def
      makeConn_def Let_def split: sum.splits if_splits option.splits)

lemma newConn_fails:
  assumes "socketFactory s (factory_calls s) = Inl e"
  shows "newConn s = Return (Some e) (state_of (newConn s)) \<and>
         count (state_of (newConn s)) = count s \<and>
         poolCh (state_of (newConn s)) = poolCh s \<and>
         poolSize (state_of (newConn s)) = poolSize s"
  using assms
  by (auto simp: newConn_def CallSockFactory_def callSockFactory_def Let_def)

lemma newConn_succeeds:
  assumes "socketFactory s (factory_calls s) = Inr sock"
    and "int (length (poolCh s)) < poolSize s"
  shows "newConn s = Return None (state_of (newConn s)) \<and>
         count (state_of (newConn s)) = count s + 1 \<and>
         poolCh (state_of (newConn s)) =
           poolCh s @ [\<lparr>cid = conns_made s, socket = sock, failing = False\<rparr>] \<and>
         poolSize (state_of (newConn s)) = poolSize s \<and>
         socketFactory (state_of (newConn s)) = socketFactory s \<and>
         factory_calls (state_of (newConn s)) = Suc (factory_calls s) \<and>
         conns_made (state_of (newConn s)) = Suc (conns_made s)"
  using assms
  by (auto simp: newConn_def CallSockFactory_def callSockFactory_def chan_send_def
      makeConn_def Let_def)

lemma made_conns_Suc:
  assumes "socketFactory t = socketFactory s" "factory_calls t = Suc (factory_calls s)"
    "conns_made t = Suc (conns_made s)"
  shows "made_conns s (Suc k) =
     \<lparr>cid = conns_made s, socket = projr (socketFactory s (factory_calls s)),
      failing = False\<rparr> # made_conns t k"
proof -
  have "[0..<Suc k] = 0 # map Suc [0..<k]"
    by (simp add: upt_conv_Cons map_Suc_upt del: upt_Suc)
  then show ?thesis
    using assms by (simp add: made_conns_def comp_def del: upt_Suc)
qed

lemma GetConn_loop_fails_partway:
  assumes "\<forall>j<k. \<not> isl (socketFactory s (factory_calls s + j))"
    and "socketFactory s (factory_calls s + k) = Inl e"
    and "0 \<le> i" and "i + 2 * int k < poolSize s - count s"
    and "int (length (poolCh s)) + int k \<le> poolSize s"
  shows "GetConn_loop i s = Return (Some e) (state_of (GetConn_loop i s)) \<and>
         count (state_of (GetConn_loop i s)) = count s + int k \<and>
         poolCh (state_of (GetConn_loop i s)) = poolCh s @ made_conns s k \<and>
         factory_calls (state_of (GetConn_loop i s)) = Suc (factory_calls s + k)"
  using assms
proof (induction k arbitrary: i s)
  case 0
  then have lt: "i < poolSize s - count s" by simp
  from 0 have f: "socketFactory s (factory_calls s) = Inl e" by simp
  from newConn_fails [OF f] newConn_calls [of s] lt show ?case
    by (cases "newConn s") (auto simp: GetConn_loop.simps [of i s] made_conns_def)
next
  case (Suc k)
  then have lt: "i < poolSize s - count s" by simp
  from Suc.prems(1) have "\<not> isl (socketFactory s (factory_calls s + 0))" by blast
  then obtain sock where f: "socketFactory s (factory_calls s) = Inr sock"
    by (cases "socketFactory s (factory_calls s)") simp_all
  from Suc.prems(5) have room: "int (length (poolCh s)) < poolSize s" by simp
  define t where "t = state_of (newConn s)"
  note n = newConn_succeeds [OF f room, folded t_def]
  from n lt have eq: "GetConn_loop i s = GetConn_loop (i + 1) t"
    by (simp add: GetConn_loop.simps [of i s])
  have 1: "\<forall>j<k. \<not> isl (socketFactory t (factory_calls t + j))"
  proof (intro allI impI)
    fix j assume "j < k"
    then have "Suc j < Suc k" by simp
    with Suc.prems(1) have "\<not> isl (socketFactory s (factory_calls s + Suc j))" by blast
    with n show "\<not> isl (socketFactory t (factory_calls t + j))" by simp
  qed
  from Suc.prems(2) n have 2: "socketFactory t (factory_calls t + k) = Inl e" by simp
  from Suc.prems(3) have 3: "0 \<le> i + 1" by simp
  from Suc.prems(4) n have 4: "i + 1 + 2 * int k < poolSize t - count t" by simp
  from Suc.prems(5) n have 5: "int (length (poolCh t)) + int k \<le> poolSize t" by simp
  note ih = Suc.IH [OF 1 2 3 4 5]
  have m: "made_conns s (Suc k) =
      \<lparr>cid = conns_made s, socket = sock, failing = False\<rparr> # made_conns t k"
    using made_conns_Suc [of t s k] n f by simp
  from ih n m show ?case unfolding eq by simp
qed

lemma GetConn_loop_calls_factory:
  assumes "0 \<le> i" and "i < poolSize s - count s"
  shows "factory_calls s < factory_calls (state_of (GetConn_loop i s))"
proof -
  from assms have 1: "0 \<le> i + 1" by simp
  have "factory_calls (state_of (newConn s)) \<le> factory_calls (state_of (GetConn_loop i s))"
  proof (cases "newConn s")
    case (Return r s')
    then show ?thesis
      using assms GetConn_loop_steady [OF 1, of s']
      by (cases r) (simp_all add: GetConn_loop.simps [of i s] steady_def)
  next
    case (Blocked s')
    with assms show ?thesis by (simp add: GetConn_loop.simps [of i s])
  next
    case (Panic s')
    with assms show ?thesis by (simp add: GetConn_loop.simps [of i s])
  qed
  with newConn_calls [of s] show ?thesis by simp
qed

lemma GetConn_calls_factory:
  assumes "count s < poolSize s"
  shows "factory_calls s < factory_calls (state_of (GetConn s))"
proof -
  from assms have g: "factory_calls s < factory_calls (state_of (GetConn_grow s))"
    using GetConn_loop_calls_factory [of 0 s] by (simp add: GetConn_grow_def)
  show ?thesis
  proof (cases "GetConn_grow s")
    case (Return r s1)
    with g GetConn_take_steady [of s1] show ?thesis
      by (cases r) (auto simp: GetConn_def steady_def)
  next
    case (Blocked s1)
    with g show ?thesis by (simp add: GetConn_def)
  next
    case (Panic s1)
    with g show ?thesis by (simp add: GetConn_def)
  qed
qed

text \<open>
  C5 (a factory failure during growth). First part: when \<^verbatim>\<open>GetConn\<close> finds the count
  below the pool size and the first factory call fails with \<open>e\<close>, it returns \<open>e\<close>, the
  count and the queue are as before, and the count is still below the pool size, so
  that the next \<^verbatim>\<open>GetConn\<close> calls the factory again, from the same count. Second part:
  when the first \<open>k\<close> factory calls of the growth succeed and the next one, which the
  loop still reaches (\<open>2 * k < poolSize - count\<close>), fails with \<open>e\<close>, \<^verbatim>\<open>GetConn\<close> returns
  \<open>e\<close>, and the \<open>k\<close> connections made before the failure are at the end of the queue and
  in the count.
\<close>

theorem GetConn_factory_failure:
  "(count s < poolSize s \<and> socketFactory s (factory_calls s) = Inl e \<longrightarrow>
      GetConn s = Return (Inl e) (state_of (GetConn s)) \<and>
      count (state_of (GetConn s)) = count s \<and>
      poolCh (state_of (GetConn s)) = poolCh s \<and>
      count (state_of (GetConn s)) < poolSize (state_of (GetConn s)) \<and>
      factory_calls (state_of (GetConn s)) <
        factory_calls (state_of (GetConn (state_of (GetConn s))))) \<and>
   ((\<forall>j<k. \<not> isl (socketFactory s (factory_calls s + j))) \<and>
    socketFactory s (factory_calls s + k) = Inl e \<and>
    2 * int k < poolSize s - count s \<and>
    int (length (poolCh s)) + int k \<le> poolSize s \<longrightarrow>
      GetConn s = Return (Inl e) (state_of (GetConn s)) \<and>
      count (state_of (GetConn s)) = count s + int k \<and>
      poolCh (state_of (GetConn s)) = poolCh s @ made_conns s k \<and>
      length (made_conns s k) = k)"
proof (intro conjI impI)
  assume a: "count s < poolSize s \<and> socketFactory s (factory_calls s) = Inl e"
  then have lt: "0 < poolSize s - count s" by simp
  from a newConn_fails [of s e] lt
  have l: "GetConn_loop 0 s = Return (Some e) (state_of (newConn s))"
    by (cases "newConn s") (auto simp: GetConn_loop.simps [of 0 s])
  with a have g: "GetConn s = Return (Inl e) (state_of (newConn s))"
    by (simp add: GetConn_def GetConn_grow_def)
  from g show "GetConn s = Return (Inl e) (state_of (GetConn s))" by simp
  from g a newConn_fails [of s e] show "count (state_of (GetConn s)) = count s" by simp
  from g a newConn_fails [of s e] show "poolCh (state_of (GetConn s)) = poolCh s" by simp
  from g a newConn_fails [of s e]
  show c: "count (state_of (GetConn s)) < poolSize (state_of (GetConn s))" by simp
  from GetConn_calls_factory [OF c]
  show "factory_calls (state_of (GetConn s)) <
        factory_calls (state_of (GetConn (state_of (GetConn s))))" .
next
  assume b: "(\<forall>j<k. \<not> isl (socketFactory s (factory_calls s + j))) \<and>
    socketFactory s (factory_calls s + k) = Inl e \<and>
    2 * int k < poolSize s - count s \<and>
    int (length (poolCh s)) + int k \<le> poolSize s"
  then have p: "\<forall>j<k. \<not> isl (socketFactory s (factory_calls s + j))"
      "socketFactory s (factory_calls s + k) = Inl e"
      "(0::int) \<le> 0" "0 + 2 * int k < poolSize s - count s"
      "int (length (poolCh s)) + int k \<le> poolSize s"
    by simp_all
  note l = GetConn_loop_fails_partway [OF p]
  from b have lt: "count s < poolSize s" by simp
  from l lt have g: "GetConn_grow s = Return (Some e) (state_of (GetConn_loop 0 s))"
    by (simp add: GetConn_grow_def)
  then have s: "GetConn s = Return (Inl e) (state_of (GetConn_loop 0 s))"
    by (simp add: GetConn_def)
  from s show "GetConn s = Return (Inl e) (state_of (GetConn s))" by simp
  from s l show "count (state_of (GetConn s)) = count s + int k" by simp
  from s l show "poolCh (state_of (GetConn s)) = poolCh s @ made_conns s k" by simp
  show "length (made_conns s k) = k" by (simp add: made_conns_def)
qed

text \<open>
  The theorem on new servers: pool size 1 with a factory that always fails (the
  scenario of the spec), and pool size 8 with a factory that fails on its third call.
\<close>

theorem GetConn_factory_failure_witness:
  "count (new_server (ok_until 0) 1) < poolSize (new_server (ok_until 0) 1) \<and>
   GetConn (new_server (ok_until 0) 1) =
     Return (Inl (Err 0)) (state_of (GetConn (new_server (ok_until 0) 1))) \<and>
   count (state_of (GetConn (new_server (ok_until 0) 1))) = 0 \<and>
   poolCh (state_of (GetConn (new_server (ok_until 0) 1))) = [] \<and>
   GetConn (new_server (ok_until 2) 8) =
     Return (Inl (Err 2)) (state_of (GetConn (new_server (ok_until 2) 8))) \<and>
   count (state_of (GetConn (new_server (ok_until 2) 8))) = 2 \<and>
   poolCh (state_of (GetConn (new_server (ok_until 2) 8))) = [conn0, conn1]"
proof -
  have a: "count (new_server (ok_until 0) 1) < poolSize (new_server (ok_until 0) 1) \<and>
      socketFactory (new_server (ok_until 0) 1) (factory_calls (new_server (ok_until 0) 1)) =
        Inl (Err 0)"
    by (simp add: new_server_def ok_until_def)
  have b: "(\<forall>j<2. \<not> isl (socketFactory (new_server (ok_until 2) 8)
               (factory_calls (new_server (ok_until 2) 8) + j))) \<and>
      socketFactory (new_server (ok_until 2) 8)
        (factory_calls (new_server (ok_until 2) 8) + 2) = Inl (Err 2) \<and>
      2 * int 2 < poolSize (new_server (ok_until 2) 8) - count (new_server (ok_until 2) 8) \<and>
      int (length (poolCh (new_server (ok_until 2) 8))) + int 2
        \<le> poolSize (new_server (ok_until 2) 8)"
    by (simp add: new_server_def ok_until_def)
  have m: "made_conns (new_server (ok_until 2) 8) 2 = [conn0, conn1]"
    by (simp add: made_conns_def new_server_def ok_until_def conn0_def conn1_def
        upt_conv_Cons del: upt_Suc)
  from a b m
    GetConn_factory_failure [of "new_server (ok_until 0) 1" "Err 0" 0, THEN conjunct1]
    GetConn_factory_failure [of "new_server (ok_until 2) 8" "Err 2" 2, THEN conjunct2]
  show ?thesis
    by (simp add: new_server_def)
qed

subsection \<open>Repair on checkout\<close>

lemma GetConn_take_room:
  assumes "int (length (poolCh s)) \<le> poolSize s"
    and "GetConn_take s = Return (Inr c) s1"
  shows "int (length (poolCh s1)) < poolSize s1"
  using assms
  by (auto simp: GetConn_take_def chan_recv_def chan_send_def
      split: list.splits option.splits prod.splits if_splits
      dest: tryReconnIfFailed_fields)

lemma GetConn_room:
  assumes "int (length (poolCh s)) \<le> poolSize s"
    and "GetConn s = Return (Inr c) s1"
  shows "int (length (poolCh s1)) < poolSize s1"
proof (cases "GetConn_grow s")
  case (Return r sg)
  with GetConn_grow_steady [of s] assms(1)
  have ok: "int (length (poolCh sg)) \<le> poolSize sg" by (simp add: steady_def)
  from Return assms(2) have "GetConn_take sg = Return (Inr c) s1"
    by (cases r) (simp_all add: GetConn_def)
  from GetConn_take_room [OF ok this] show ?thesis .
next
  case (Blocked sg)
  with assms(2) show ?thesis by (simp add: GetConn_def)
next
  case (Panic sg)
  with assms(2) show ?thesis by (simp add: GetConn_def)
qed

text \<open>
  C6 (a failing connection at checkout). Let the growth step of \<^verbatim>\<open>GetConn\<close> end without
  error in a state whose queue starts with a failing connection \<open>c\<close>, the channel being
  within its capacity. When the repair of \<open>c\<close> returns an error, \<^verbatim>\<open>GetConn\<close> returns that
  error and no connection, and the connection, still failing, is at the end of the
  queue. When the repair succeeds, \<^verbatim>\<open>GetConn\<close> returns the same connection object, no
  longer marked failing, and the queue holds the rest.
\<close>

theorem GetConn_failing_conn:
  assumes "int (length (poolCh s)) \<le> poolSize s"
    and "GetConn_grow s = Return None s1"
    and "poolCh s1 = c # rest"
    and "failing c"
  shows "case tryReconnIfFailed c (s1\<lparr>poolCh := rest\<rparr>) of
           (Some err, c', s2) \<Rightarrow>
             GetConn s = Return (Inl err) (s2\<lparr>poolCh := rest @ [c']\<rparr>) \<and>
             poolCh s2 = rest \<and> failing c' \<and> cid c' = cid c
         | (None, c', s2) \<Rightarrow>
             GetConn s = Return (Inr c') s2 \<and>
             poolCh s2 = rest \<and> \<not> failing c' \<and> cid c' = cid c"
proof -
  from GetConn_grow_steady [of s] assms(1, 2)
  have ok: "int (length (poolCh s1)) \<le> poolSize s1" by (simp add: steady_def)
  obtain r c' s2 where t: "tryReconnIfFailed c (s1\<lparr>poolCh := rest\<rparr>) = (r, c', s2)"
    by (cases "tryReconnIfFailed c (s1\<lparr>poolCh := rest\<rparr>)")
  from tryReconnIfFailed_fields [OF t]
  have f: "poolCh s2 = rest" "poolSize s2 = poolSize s1" by simp_all
  from ok assms(3) f have room: "int (length (poolCh s2)) < poolSize s2" by simp
  have g: "GetConn s = GetConn_take s1" using assms(2) by (simp add: GetConn_def)
  show ?thesis
  proof (cases r)
    case None
    with t assms(4) have "\<not> failing c'" "cid c' = cid c"
      by (auto simp: tryReconnIfFailed_def split: prod.splits sum.splits)
    with None t f assms(3, 4) show ?thesis
      by (simp add: g GetConn_take_def chan_recv_def)
  next
    case (Some err)
    with t assms(4) have "failing c'" "cid c' = cid c"
      by (auto simp: tryReconnIfFailed_def split: prod.splits sum.splits)
    with Some t f room assms(3, 4) show ?thesis
      by (simp add: g GetConn_take_def chan_recv_def chan_send_def)
  qed
qed

text \<open>
  The theorem on a full pool of size 1 whose connection was released marked failing:
  with a factory that fails from its second call on the repair fails, with a factory
  that always succeeds the repair gives the connection the new transport 1.
\<close>

theorem GetConn_failing_conn_witness:
  "GetConn (run [OpGetConn, OpPutConn (conn0\<lparr>failing := True\<rparr>)] (new_server (ok_until 1) 1)) =
     Return (Inl (Err 1))
       (state_of (GetConn
          (run [OpGetConn, OpPutConn (conn0\<lparr>failing := True\<rparr>)] (new_server (ok_until 1) 1)))) \<and>
   poolCh (state_of (GetConn
      (run [OpGetConn, OpPutConn (conn0\<lparr>failing := True\<rparr>)] (new_server (ok_until 1) 1)))) =
     [conn0\<lparr>failing := True\<rparr>] \<and>
   GetConn (run [OpGetConn, OpPutConn (conn0\<lparr>failing := True\<rparr>)] (new_server always_ok 1)) =
     Return (Inr (conn0\<lparr>socket := 1\<rparr>))
       (state_of (GetConn
          (run [OpGetConn, OpPutConn (conn0\<lparr>failing := True\<rparr>)] (new_server always_ok 1)))) \<and>
   poolCh (state_of (GetConn
      (run [OpGetConn, OpPutConn (conn0\<lparr>failing := True\<rparr>)] (new_server always_ok 1)))) = []"
proof -
  define sa where
    "sa = run [OpGetConn, OpPutConn (conn0\<lparr>failing := True\<rparr>)] (new_server (ok_until 1) 1)"
  define sb where
    "sb = run [OpGetConn, OpPutConn (conn0\<lparr>failing := True\<rparr>)] (new_server always_ok 1)"
  have a: "int (length (poolCh sa)) \<le> poolSize sa" "GetConn_grow sa = Return None sa"
    "poolCh sa = conn0\<lparr>failing := True\<rparr> # []" "failing (conn0\<lparr>failing := True\<rparr>)"
    by (simp_all add: sa_def eval_defs)
  have b: "int (length (poolCh sb)) \<le> poolSize sb" "GetConn_grow sb = Return None sb"
    "poolCh sb = conn0\<lparr>failing := True\<rparr> # []" "failing (conn0\<lparr>failing := True\<rparr>)"
    by (simp_all add: sb_def eval_defs)
  have ta: "tryReconnIfFailed (conn0\<lparr>failing := True\<rparr>) (sa\<lparr>poolCh := []\<rparr>) =
      (Some (Err 1), conn0\<lparr>failing := True\<rparr>, sa\<lparr>poolCh := [], factory_calls := 2\<rparr>)"
    by (simp add: sa_def eval_defs)
  have tb: "tryReconnIfFailed (conn0\<lparr>failing := True\<rparr>) (sb\<lparr>poolCh := []\<rparr>) =
      (None, conn0\<lparr>socket := 1\<rparr>,
       sb\<lparr>poolCh := [], factory_calls := 2, closed_socks := [0]\<rparr>)"
    by (simp add: sb_def eval_defs)
  from GetConn_failing_conn [OF a] GetConn_failing_conn [OF b] ta tb
  show ?thesis unfolding sa_def [symmetric] sb_def [symmetric] by simp
qed

subsection \<open>Release after detection\<close>

lemma conn_exchange_fields:
  "conn_exchange c s = (r, c', s') \<Longrightarrow>
   cid c' = cid c \<and> poolCh s' = poolCh s \<and> poolSize s' = poolSize s \<and>
   r = exchange s (exchanges s)"
  by (auto simp: conn_exchange_def Let_def split: sum.splits)

text \<open>
  C7 (release after a detection call). Let \<^verbatim>\<open>GetConn\<close> return the connection \<open>c\<close>, the
  channel being within its capacity, and let the exchange on \<open>c\<close> return \<open>r\<close> and leave
  the connection as \<open>c'\<close> (the same object). \<^verbatim>\<open>DetectRequestInCtx\<close>,
  \<^verbatim>\<open>DetectResponseInCtx\<close>, \<^verbatim>\<open>DetectHttpRequest\<close> and \<^verbatim>\<open>DetectRequest\<close> return \<open>r\<close> with
  \<open>c'\<close> at the end of the queue, whether \<open>r\<close> is a result or an error. \<^verbatim>\<open>Detect\<close> puts
  \<open>c'\<close> at the end of the queue when the exchange succeeds, and leaves the queue as it
  was after the checkout when the exchange fails.
\<close>

theorem Detect_operations_release:
  assumes "int (length (poolCh s)) \<le> poolSize s"
    and "GetConn s = Return (Inr c) s1"
  shows "case conn_exchange c s1 of
           (r, c', s2) \<Rightarrow>
             cid c' = cid c \<and> poolCh s2 = poolCh s1 \<and>
             DetectRequestInCtx s =
               Return (map_sum id fst r) (s2\<lparr>poolCh := poolCh s1 @ [c']\<rparr>) \<and>
             DetectResponseInCtx s =
               Return (map_sum id fst r) (s2\<lparr>poolCh := poolCh s1 @ [c']\<rparr>) \<and>
             DetectHttpRequest s =
               Return (map_sum id fst r) (s2\<lparr>poolCh := poolCh s1 @ [c']\<rparr>) \<and>
             DetectRequest s =
               Return (map_sum id fst r) (s2\<lparr>poolCh := poolCh s1 @ [c']\<rparr>) \<and>
             Detect s =
               (case r of
                  Inr v \<Rightarrow> Return (Inr v) (s2\<lparr>poolCh := poolCh s1 @ [c']\<rparr>)
                | Inl err \<Rightarrow> Return (Inl err) s2)"
proof -
  obtain r c' s2 where x: "conn_exchange c s1 = (r, c', s2)"
    by (cases "conn_exchange c s1")
  note f = conn_exchange_fields [OF x]
  from GetConn_room [OF assms] f have room: "int (length (poolCh s2)) < poolSize s2" by simp
  from room f have p: "PutConn c' s2 = Return () (s2\<lparr>poolCh := poolCh s1 @ [c']\<rparr>)"
    by (simp add: PutConn_def chan_send_def)
  from p x have e: "exchange_then_put c s1 =
      Return (map_sum id fst r) (s2\<lparr>poolCh := poolCh s1 @ [c']\<rparr>)"
    by (simp add: exchange_then_put_def)
  have d: "Detect s =
      (case r of
         Inr v \<Rightarrow> Return (Inr v) (s2\<lparr>poolCh := poolCh s1 @ [c']\<rparr>)
       | Inl err \<Rightarrow> Return (Inl err) s2)"
    using assms(2) x p by (cases r) (simp_all add: Detect_def)
  from assms(2) e d f x show ?thesis
    by (simp add: DetectRequestInCtx_def DetectResponseInCtx_def DetectHttpRequest_def
        DetectRequest_def)
qed

text \<open>
  The theorem on a new pool of size 1, once with an exchange that fails and once with
  one that succeeds: after the failed exchange the four one-way operations have the
  connection, now marked failing, back in the queue, and \<^verbatim>\<open>Detect\<close> leaves the queue
  empty.
\<close>

theorem Detect_operations_release_witness:
  "poolCh (state_of (DetectRequestInCtx
      ((new_server always_ok 1)\<lparr>exchange := (\<lambda>k. Inl (Err 7))\<rparr>))) =
     [conn0\<lparr>failing := True\<rparr>] \<and>
   poolCh (state_of (Detect
      ((new_server always_ok 1)\<lparr>exchange := (\<lambda>k. Inl (Err 7))\<rparr>))) = [] \<and>
   poolCh (state_of (Detect (new_server always_ok 1))) = [conn0]"
proof -
  define sb where "sb = new_server always_ok 1"
  define sa where "sa = sb\<lparr>exchange := (\<lambda>k. Inl (Err 7))\<rparr>"
  define sa1 where "sa1 = sa\<lparr>factory_calls := 1, count := 1, conns_made := 1\<rparr>"
  define sb1 where "sb1 = sb\<lparr>factory_calls := 1, count := 1, conns_made := 1\<rparr>"
  have a: "int (length (poolCh sa)) \<le> poolSize sa" "GetConn sa = Return (Inr conn0) sa1"
    by (simp_all add: sa_def sb_def sa1_def eval_defs)
  have b: "int (length (poolCh sb)) \<le> poolSize sb" "GetConn sb = Return (Inr conn0) sb1"
    by (simp_all add: sb_def sb1_def eval_defs)
  have xa: "conn_exchange conn0 sa1 = (Inl (Err 7), conn0\<lparr>failing := True\<rparr>, sa1\<lparr>exchanges := 1\<rparr>)"
    by (simp add: conn_exchange_def sa1_def sa_def sb_def new_server_def)
  have xb: "conn_exchange conn0 sb1 = (Inr (0, 0), conn0, sb1\<lparr>exchanges := 1\<rparr>)"
    by (simp add: conn_exchange_def sb1_def sb_def new_server_def)
  have q: "poolCh sa1 = []" "poolCh sb1 = []"
    by (simp_all add: sa1_def sa_def sb1_def sb_def new_server_def)
  from Detect_operations_release [OF a] Detect_operations_release [OF b] xa xb q
  show ?thesis unfolding sb_def [symmetric] sa_def [symmetric] by simp
qed

subsection \<open>Growth during shutdown\<close>

lemma newConn_makes:
  assumes "socketFactory s (factory_calls s) = Inr sock"
  shows "conns_made (state_of (newConn s)) = Suc (conns_made s) \<and>
         count (state_of (newConn s)) = count s + 1"
  using assms
  by (auto simp: newConn_def CallSockFactory_def callSockFactory_def chan_send_def
      makeConn_def Let_def split: option.splits)

lemma GetConn_loop_after_newConn:
  assumes "0 \<le> i" and "i < poolSize s - count s"
  shows "steady (state_of (newConn s)) (state_of (GetConn_loop i s))"
proof -
  from assms have 1: "0 \<le> i + 1" by simp
  show ?thesis
  proof (cases "newConn s")
    case (Return r s')
    then show ?thesis
      using assms GetConn_loop_steady [OF 1, of s']
      by (cases r) (simp_all add: GetConn_loop.simps [of i s] steady_refl)
  next
    case (Blocked s')
    with assms show ?thesis by (simp add: GetConn_loop.simps [of i s] steady_refl)
  next
    case (Panic s')
    with assms show ?thesis by (simp add: GetConn_loop.simps [of i s] steady_refl)
  qed
qed

lemma GetConn_after_newConn:
  assumes "count s < poolSize s"
  shows "steady (state_of (newConn s)) (state_of (GetConn s))"
proof -
  from assms have g: "steady (state_of (newConn s)) (state_of (GetConn_grow s))"
    using GetConn_loop_after_newConn [of 0 s] by (simp add: GetConn_grow_def)
  show ?thesis
  proof (cases "GetConn_grow s")
    case (Return r s1)
    with g GetConn_take_steady [of s1] show ?thesis
      by (cases r) (auto simp: GetConn_def intro: steady_trans)
  next
    case (Blocked s1)
    with g show ?thesis by (simp add: GetConn_def)
  next
    case (Panic s1)
    with g show ?thesis by (simp add: GetConn_def)
  qed
qed

text \<open>
  The first iteration of the loop of \<^verbatim>\<open>Close\<close>, when the count is above 0.
\<close>

lemma Close_first_iteration:
  assumes "\<not> closeCh s" and "0 < count s"
  shows "Close s =
     (case GetConn (s\<lparr>closeCh := True\<rparr>) of
        Return (Inl err) s1 \<Rightarrow> Return () s1
      | Return (Inr c) s1 \<Rightarrow> Close_loop 1 (conn_Close c s1)
      | Blocked s1 \<Rightarrow> Blocked s1
      | Panic s1 \<Rightarrow> Panic s1)"
  using assms
  by (simp add: Close_def Close_loop.simps [of 0 "s\<lparr>closeCh := True\<rparr>"]
      split: outcome.splits sum.splits)

lemma Close_after_GetConn:
  assumes "\<not> closeCh s" and "0 < count s"
  shows "steady (state_of (GetConn (s\<lparr>closeCh := True\<rparr>))) (state_of (Close s))"
proof (cases "GetConn (s\<lparr>closeCh := True\<rparr>)")
  case (Return r s1)
  show ?thesis
  proof (cases r)
    case (Inl err)
    with Return show ?thesis
      unfolding Close_first_iteration [OF assms] by (simp add: steady_refl)
  next
    case (Inr c)
    have "steady s1 (conn_Close c s1)" by (simp add: steady_def conn_Close_def)
    with Close_loop_steady [of "conn_Close c s1" 1] Return Inr show ?thesis
      unfolding Close_first_iteration [OF assms] by (auto intro: steady_trans)
  qed
next
  case (Blocked s1)
  then show ?thesis unfolding Close_first_iteration [OF assms] by (simp add: steady_refl)
next
  case (Panic s1)
  then show ?thesis unfolding Close_first_iteration [OF assms] by (simp add: steady_refl)
qed

text \<open>
  C10 as claimed fails on two points. It says that \<^verbatim>\<open>Close\<close> calls \<^verbatim>\<open>GetConn\<close> and the
  factory whenever the count is below the pool size: on a new server the count is 0,
  the loop of \<^verbatim>\<open>Close\<close> is not entered and no factory call is made. And it says that
  \<^verbatim>\<open>Close\<close> closes the connections made during shutdown: take a pool of size 4 whose
  factory succeeds three times and fails from then on, with two connections counted
  and idle. The first \<^verbatim>\<open>GetConn\<close> of \<^verbatim>\<open>Close\<close> makes a connection on transport 2 and
  hands out the connection on transport 1, which \<^verbatim>\<open>Close\<close> closes; the second
  \<^verbatim>\<open>GetConn\<close> fails and \<^verbatim>\<open>Close\<close> returns. Transport 2, made during shutdown, is
  still in the queue and was never closed.
\<close>

theorem Close_at_count_zero_counterexample:
  "count (new_server always_ok 1) < poolSize (new_server always_ok 1) \<and>
   factory_calls (new_server always_ok 1) = 0 \<and>
   Close (new_server always_ok 1) =
     Return () (state_of (Close (new_server always_ok 1))) \<and>
   factory_calls (state_of (Close (new_server always_ok 1))) = 0 \<and>
   closed_socks (state_of (Close (new_server always_ok 1))) = [] \<and>
   count (run [OpGetConn, OpPutConn conn0] (new_server (ok_until 3) 4)) = 2 \<and>
   factory_calls (run [OpGetConn, OpPutConn conn0] (new_server (ok_until 3) 4)) = 2 \<and>
   map socket (poolCh (run [OpGetConn, OpPutConn conn0] (new_server (ok_until 3) 4))) =
     [1, 0] \<and>
   Close (run [OpGetConn, OpPutConn conn0] (new_server (ok_until 3) 4)) =
     Return ()
       (state_of (Close (run [OpGetConn, OpPutConn conn0] (new_server (ok_until 3) 4)))) \<and>
   factory_calls
     (state_of (Close (run [OpGetConn, OpPutConn conn0] (new_server (ok_until 3) 4)))) = 4 \<and>
   map socket (poolCh
     (state_of (Close (run [OpGetConn, OpPutConn conn0] (new_server (ok_until 3) 4))))) =
     [0, 2] \<and>
   closed_socks
     (state_of (Close (run [OpGetConn, OpPutConn conn0] (new_server (ok_until 3) 4)))) = [1]"
  by (simp add: eval_defs)

text \<open>
  C10 (growth during shutdown), as amended. When \<^verbatim>\<open>Close\<close> runs on a server whose
  shutdown has not been signalled and whose count is above 0 and below the pool size,
  its loop calls \<^verbatim>\<open>GetConn\<close>, and the growth step of that \<^verbatim>\<open>GetConn\<close> calls the factory:
  more factory calls have been made when \<^verbatim>\<open>Close\<close> is left than before. When that
  factory call succeeds, a connection has been made during shutdown: the number of
  connections made and the count are larger when \<^verbatim>\<open>Close\<close> is left than before.
\<close>

theorem Close_grows_pool:
  "(\<not> closeCh s \<and> 0 < count s \<and> count s < poolSize s \<longrightarrow>
      Close s =
        (case GetConn (s\<lparr>closeCh := True\<rparr>) of
           Return (Inl err) s1 \<Rightarrow> Return () s1
         | Return (Inr c) s1 \<Rightarrow> Close_loop 1 (conn_Close c s1)
         | Blocked s1 \<Rightarrow> Blocked s1
         | Panic s1 \<Rightarrow> Panic s1) \<and>
      factory_calls s < factory_calls (state_of (GetConn (s\<lparr>closeCh := True\<rparr>))) \<and>
      factory_calls s < factory_calls (state_of (Close s))) \<and>
   (\<not> closeCh s \<and> 0 < count s \<and> count s < poolSize s \<and>
    \<not> isl (socketFactory s (factory_calls s)) \<longrightarrow>
      conns_made s < conns_made (state_of (Close s)) \<and>
      count s < count (state_of (Close s)))"
proof (intro conjI impI)
  assume a: "\<not> closeCh s \<and> 0 < count s \<and> count s < poolSize s"
  define s0 where "s0 = s\<lparr>closeCh := True\<rparr>"
  have f: "count s0 = count s" "poolSize s0 = poolSize s" "factory_calls s0 = factory_calls s"
    by (simp_all add: s0_def)
  from a show "Close s =
        (case GetConn (s\<lparr>closeCh := True\<rparr>) of
           Return (Inl err) s1 \<Rightarrow> Return () s1
         | Return (Inr c) s1 \<Rightarrow> Close_loop 1 (conn_Close c s1)
         | Blocked s1 \<Rightarrow> Blocked s1
         | Panic s1 \<Rightarrow> Panic s1)"
    by (intro Close_first_iteration) simp_all
  from a f have "count s0 < poolSize s0" by simp
  from GetConn_calls_factory [OF this] f
  show g: "factory_calls s < factory_calls (state_of (GetConn (s\<lparr>closeCh := True\<rparr>)))"
    by (simp add: s0_def)
  from a have "steady (state_of (GetConn (s\<lparr>closeCh := True\<rparr>))) (state_of (Close s))"
    by (intro Close_after_GetConn) simp_all
  with g show "factory_calls s < factory_calls (state_of (Close s))"
    by (simp add: steady_def)
next
  assume b: "\<not> closeCh s \<and> 0 < count s \<and> count s < poolSize s \<and>
    \<not> isl (socketFactory s (factory_calls s))"
  define s0 where "s0 = s\<lparr>closeCh := True\<rparr>"
  from b obtain sock where k: "socketFactory s0 (factory_calls s0) = Inr sock"
    by (cases "socketFactory s (factory_calls s)") (simp_all add: s0_def)
  from b have lt: "count s0 < poolSize s0" by (simp add: s0_def)
  note n = newConn_makes [OF k]
  note 1 = GetConn_after_newConn [OF lt]
  from b have 2: "steady (state_of (GetConn s0)) (state_of (Close s))"
    unfolding s0_def by (intro Close_after_GetConn) simp_all
  from steady_trans [OF 1 2] n
  have "conns_made s0 < conns_made (state_of (Close s)) \<and> count s0 < count (state_of (Close s))"
    by (auto simp: steady_def)
  then show "conns_made s < conns_made (state_of (Close s))"
    and "count s < count (state_of (Close s))"
    by (simp_all add: s0_def)
qed

text \<open>
  The theorem on a pool of size 8 after one \<^verbatim>\<open>GetConn\<close> and the matching \<^verbatim>\<open>PutConn\<close>:
  four connections are counted, after four factory calls; when \<^verbatim>\<open>Close\<close> is left,
  eight factory calls and eight connections have been made.
\<close>

theorem Close_grows_pool_witness:
  "\<not> closeCh (run [OpGetConn, OpPutConn conn0] (new_server always_ok 8)) \<and>
   count (run [OpGetConn, OpPutConn conn0] (new_server always_ok 8)) = 4 \<and>
   poolSize (run [OpGetConn, OpPutConn conn0] (new_server always_ok 8)) = 8 \<and>
   factory_calls (run [OpGetConn, OpPutConn conn0] (new_server always_ok 8)) = 4 \<and>
   factory_calls (run [OpGetConn, OpPutConn conn0] (new_server always_ok 8)) <
     factory_calls (state_of (Close
       (run [OpGetConn, OpPutConn conn0] (new_server always_ok 8)))) \<and>
   count (run [OpGetConn, OpPutConn conn0] (new_server always_ok 8)) <
     count (state_of (Close
       (run [OpGetConn, OpPutConn conn0] (new_server always_ok 8)))) \<and>
   factory_calls (state_of (Close
      (run [OpGetConn, OpPutConn conn0] (new_server always_ok 8)))) = 8 \<and>
   conns_made (state_of (Close
      (run [OpGetConn, OpPutConn conn0] (new_server always_ok 8)))) = 8"
proof -
  define s where "s = run [OpGetConn, OpPutConn conn0] (new_server always_ok 8)"
  have v: "count s = 4" "factory_calls s = 4" "poolSize s = 8" "\<not> closeCh s"
      "socketFactory s = always_ok"
    by (simp_all add: s_def eval_defs)
  have w: "factory_calls (state_of (Close s)) = 8" "conns_made (state_of (Close s)) = 8"
    by (simp_all add: s_def eval_defs)
  have a: "\<not> closeCh s \<and> 0 < count s \<and> count s < poolSize s" using v by simp
  have b: "\<not> closeCh s \<and> 0 < count s \<and> count s < poolSize s \<and>
    \<not> isl (socketFactory s (factory_calls s))"
    using v by (simp add: always_ok_def)
  note t1 = Close_grows_pool [of s, THEN conjunct1, rule_format, OF a]
  note t2 = Close_grows_pool [of s, THEN conjunct2, rule_format, OF b]
  from t1 t2 v w show ?thesis unfolding s_def [symmetric] by blast
qed

subsection \<open>Half growth and early return in general\<close>

lemma newConn_keeps:
  "closed_socks (state_of (newConn s)) = closed_socks s \<and>
   healthCheck_closed (state_of (newConn s)) = healthCheck_closed s \<and>
   closeCh (state_of (newConn s)) = closeCh s"
  by (auto simp: newConn_def CallSockFactory_def callSockFactory_def chan_send_def
      makeConn_def Let_def split: sum.splits if_splits option.splits)

text \<open>
  The loop of \<^verbatim>\<open>GetConn\<close> when every factory call succeeds and no more connections are
  queued than counted: it ends without error after some number \<open>k\<close> of iterations, at
  least one if it was entered at all.
\<close>

lemma GetConn_loop_all_succeed:
  assumes "\<forall>j. \<not> isl (socketFactory s (factory_calls s + j))"
    and "0 \<le> i" and "int (length (poolCh s)) \<le> count s"
  shows "\<exists>k. GetConn_loop i s = Return None (state_of (GetConn_loop i s)) \<and>
           count (state_of (GetConn_loop i s)) = count s + int k \<and>
           int k = max 0 ((poolSize s - count s - i + 1) div 2) \<and>
           (i < poolSize s - count s \<longrightarrow> 0 < k) \<and>
           poolCh (state_of (GetConn_loop i s)) = poolCh s @ made_conns s k \<and>
           factory_calls (state_of (GetConn_loop i s)) = factory_calls s + k \<and>
           conns_made (state_of (GetConn_loop i s)) = conns_made s + k \<and>
           socketFactory (state_of (GetConn_loop i s)) = socketFactory s \<and>
           closed_socks (state_of (GetConn_loop i s)) = closed_socks s"
  using assms
proof (induction i s rule: GetConn_loop.induct)
  case (1 i s)
  show ?case
  proof (cases "i < poolSize s - count s")
    case False
    then have "GetConn_loop i s = Return None s" by (simp add: GetConn_loop.simps [of i s])
    with False show ?thesis by (intro exI [of _ 0]) (simp add: made_conns_def)
  next
    case True
    from "1.prems"(1) have "\<not> isl (socketFactory s (factory_calls s + 0))" by blast
    then obtain sock where f: "socketFactory s (factory_calls s) = Inr sock"
      by (cases "socketFactory s (factory_calls s)") simp_all
    from True "1.prems"(2, 3) have room: "int (length (poolCh s)) < poolSize s" by simp
    define t where "t = state_of (newConn s)"
    note n = newConn_succeeds [OF f room, folded t_def]
    note nk = newConn_keeps [of s, folded t_def]
    from n True have eq: "GetConn_loop i s = GetConn_loop (i + 1) t"
      by (simp add: GetConn_loop.simps [of i s])
    have p1: "\<forall>j. \<not> isl (socketFactory t (factory_calls t + j))"
    proof
      fix j
      from "1.prems"(1) have "\<not> isl (socketFactory s (factory_calls s + Suc j))" by blast
      with n show "\<not> isl (socketFactory t (factory_calls t + j))" by simp
    qed
    from "1.prems"(2) have p2: "0 \<le> i + 1" by simp
    from "1.prems"(3) n have p3: "int (length (poolCh t)) \<le> count t" by simp
    from n have r: "newConn s = Return None t" by simp
    from "1.IH" [OF True r refl p1 p2 p3]
    obtain k where k: "GetConn_loop (i + 1) t = Return None (state_of (GetConn_loop (i + 1) t))"
        "count (state_of (GetConn_loop (i + 1) t)) = count t + int k"
        "int k = max 0 ((poolSize t - count t - (i + 1) + 1) div 2)"
        "poolCh (state_of (GetConn_loop (i + 1) t)) = poolCh t @ made_conns t k"
        "factory_calls (state_of (GetConn_loop (i + 1) t)) = factory_calls t + k"
        "conns_made (state_of (GetConn_loop (i + 1) t)) = conns_made t + k"
        "socketFactory (state_of (GetConn_loop (i + 1) t)) = socketFactory t"
        "closed_socks (state_of (GetConn_loop (i + 1) t)) = closed_socks t"
      by blast
    have m: "made_conns s (Suc k) =
        \<lparr>cid = conns_made s, socket = sock, failing = False\<rparr> # made_conns t k"
      using made_conns_Suc [of t s k] n f by simp
    from k(3) n True have h: "int (Suc k) = max 0 ((poolSize s - count s - i + 1) div 2)"
      by (simp add: max_def)
    from k(1, 2, 4-) h n nk m show ?thesis unfolding eq by (intro exI [of _ "Suc k"]) simp
  qed
qed

text \<open>
  In general: when every factory call succeeds, the growth step of one \<^verbatim>\<open>GetConn\<close> makes
  half of the missing connections, rounded up.
\<close>

lemma GetConn_grow_makes_half:
  assumes "\<forall>j. \<not> isl (socketFactory s (factory_calls s + j))"
    and "int (length (poolCh s)) \<le> count s" and "count s < poolSize s"
  shows "GetConn_grow s = Return None (state_of (GetConn_grow s)) \<and>
         count (state_of (GetConn_grow s)) = count s + (poolSize s - count s + 1) div 2 \<and>
         int (factory_calls (state_of (GetConn_grow s))) =
           int (factory_calls s) + (poolSize s - count s + 1) div 2"
proof -
  have z: "(0::int) \<le> 0" by simp
  from GetConn_loop_all_succeed [OF assms(1) z assms(2)]
  obtain k where k: "GetConn_loop 0 s = Return None (state_of (GetConn_loop 0 s))"
      "count (state_of (GetConn_loop 0 s)) = count s + int k"
      "int k = max 0 ((poolSize s - count s - 0 + 1) div 2)"
      "factory_calls (state_of (GetConn_loop 0 s)) = factory_calls s + k"
    by blast
  from assms(3) have "0 \<le> (poolSize s - count s + 1) div 2" by simp
  with k(3) have "int k = (poolSize s - count s + 1) div 2" by simp
  with k(1, 2, 4) assms(3) show ?thesis by (simp add: GetConn_grow_def)
qed

lemma GetConn_loop_keeps:
  "healthCheck_closed (state_of (GetConn_loop i s)) = healthCheck_closed s \<and>
   closeCh (state_of (GetConn_loop i s)) = closeCh s"
proof (induction i s rule: GetConn_loop.induct)
  case (1 i s)
  show ?case
  proof (cases "i < poolSize s - count s")
    case False
    then show ?thesis by (simp add: GetConn_loop.simps [of i s])
  next
    case True
    note nk = newConn_keeps [of s]
    show ?thesis
    proof (cases "newConn s")
      case (Return r s')
      show ?thesis
      proof (cases r)
        case None
        with Return True "1.IH" [OF True Return None] nk show ?thesis
          by (simp add: GetConn_loop.simps [of i s])
      next
        case (Some err)
        with Return True nk show ?thesis by (simp add: GetConn_loop.simps [of i s])
      qed
    next
      case (Blocked s')
      with True nk show ?thesis by (simp add: GetConn_loop.simps [of i s])
    next
      case (Panic s')
      with True nk show ?thesis by (simp add: GetConn_loop.simps [of i s])
    qed
  qed
qed

lemma GetConn_take_keeps:
  "healthCheck_closed (state_of (GetConn_take s)) = healthCheck_closed s \<and>
   closeCh (state_of (GetConn_take s)) = closeCh s"
  by (auto simp: GetConn_take_def chan_recv_def chan_send_def tryReconnIfFailed_def
      CallSockFactory_def callSockFactory_def Let_def
      split: list.splits option.splits prod.splits sum.splits if_splits)

lemma GetConn_keeps:
  "healthCheck_closed (state_of (GetConn s)) = healthCheck_closed s \<and>
   closeCh (state_of (GetConn s)) = closeCh s"
proof (cases "GetConn_grow s")
  case (Return r s1)
  with GetConn_loop_keeps [of 0 s] GetConn_take_keeps [of s1] show ?thesis
    by (cases r) (auto simp: GetConn_def GetConn_grow_def split: if_splits)
next
  case (Blocked s1)
  with GetConn_loop_keeps [of 0 s] show ?thesis
    by (auto simp: GetConn_def GetConn_grow_def split: if_splits)
next
  case (Panic s1)
  with GetConn_loop_keeps [of 0 s] show ?thesis
    by (auto simp: GetConn_def GetConn_grow_def split: if_splits)
qed

text \<open>
  In general: when the first \<^verbatim>\<open>GetConn\<close> of the loop of \<^verbatim>\<open>Close\<close> returns an error,
  \<^verbatim>\<open>Close\<close> returns with the Health-Check Service as it was.
\<close>

lemma Close_returns_early:
  assumes "\<not> closeCh s" and "0 < count s"
    and "GetConn (s\<lparr>closeCh := True\<rparr>) = Return (Inl err) s1"
  shows "Close s = Return () s1 \<and> closeCh s1 \<and>
         healthCheck_closed s1 = healthCheck_closed s"
proof -
  from assms have "Close s = Return () s1"
    by (simp add: Close_def Close_loop.simps [of 0 "s\<lparr>closeCh := True\<rparr>"])
  with GetConn_keeps [of "s\<lparr>closeCh := True\<rparr>"] assms(3) show ?thesis by simp
qed

end
